theory Spec2Isabelle
  imports Main "HOL-Library.Word" "HOL-Library.AList"
begin

unbundle bit_operations_syntax

section \<open>Data model of the topic worker (consumer.go)\<close>

text \<open>
  Go's fixed-width integers are words: partition ids are \<open>int32\<close>, offsets \<open>int64\<close> and
  bucket counters \<open>uint8\<close>. Arithmetic on them wraps; the comparisons of the source on
  \<open>int32\<close> and \<open>int64\<close> are signed (\<open><s\<close>, \<open>sint\<close>). Go's \<open>int\<close> is taken to be
  64 bits wide, so the conversion \<open>int(delta)\<close> changes nothing.
\<close>

type_synonym int32 = "32 word"
type_synonym int64 = "64 word"
type_synonym uint8 = "8 word"

text \<open>The two fields of \<open>sarama.ConsumerMessage\<close> that the worker reads.\<close>

record ConsumerMessage =
  Partition :: int32
  Offset :: int64

text \<open>
  \<open>type partition struct\<close>: \<open>offset\<close> is the newest committable offset, \<open>buckets\<close> the counts
  of outstanding offsets in groups of 64, \<open>oldest\<close> the first offset of the oldest bucket.
  The field \<open>consumer\<close> (the handle of the external partition stream) carries no data
  of the tracker and is left out.
\<close>

record partition =
  offset :: int64
  buckets :: "uint8 list"
  oldest :: int64

text \<open>
  The map \<open>partitions\<close> of \<open>consumer.run\<close> is an association list with one entry per key.
  The handlers mutate a \<open>*partition\<close> in place; the model writes the changed record back
  under the same key.
\<close>

type_synonym partitions = "(int32 \<times> partition) list"

text \<open>
  A handler either returns or panics (an index out of range, a nil pointer read, a nil
  channel closed). A panic keeps the state the goroutine had reached when it panicked:
  the deferred clean-up of \<open>consumer.run\<close> still reads it.
\<close>

datatype panic = IndexOutOfRange | NilDereference | CloseOfNilChannel

datatype 's result = Return 's | Panic panic 's

fun final :: "'s result \<Rightarrow> 's" where
  "final (Return s) = s"
| "final (Panic e s) = s"

fun returns :: "'s result \<Rightarrow> bool" where
  "returns (Return s) = True"
| "returns (Panic e s) = False"

section \<open>The acknowledgement tracker\<close>

text \<open>
  The loop of \<open>done\<close>:
  \<^verbatim>\<open>for partition.buckets[0] == 0 { partition.offset += 64;
       partition.oldest = partition.offset; partition.buckets = partition.buckets[1:] }\<close>
  The condition indexes the slice before anything checks its length, so on an empty slice
  it panics.
\<close>

function advance :: "partition \<Rightarrow> partition result" where
  "advance p =
     (case buckets p of
        [] \<Rightarrow> Panic IndexOutOfRange p
      | b # bs \<Rightarrow>
          if b = 0
          then advance (p\<lparr>offset := offset p + 64, oldest := offset p + 64, buckets := bs\<rparr>)
          else Return p)"
  by pat_completeness auto
termination
  by (relation "measure (\<lambda>p. length (buckets p))") auto

declare advance.simps [simp del]

text \<open>
  The closure \<open>done\<close> of \<open>consumer.run\<close> (the name is an Isabelle keyword, hence
  \<open>done_msg\<close>). Note the operands of the subtraction: \<open>partition.oldest - msg.Offset\<close>.
\<close>

definition done_msg :: "partitions \<Rightarrow> ConsumerMessage \<Rightarrow> partitions result" where
  "done_msg ps msg =
     (case map_of ps (Partition msg) of
        None \<Rightarrow> Return ps
      | Some p \<Rightarrow>
          let delta = oldest p - Offset msg in
          if delta <s 0 then Return ps
          else
            let index = nat (sint (signed_drop_bit 6 delta)) in
            if index \<ge> length (buckets p) then Return ps
            else
              let p1 = p\<lparr>buckets := (buckets p)[index := buckets p ! index - 1]\<rparr> in
              if index = 0
              then (case advance p1 of
                      Return p2 \<Rightarrow> Return (AList.update (Partition msg) p2 ps)
                    | Panic e p2 \<Rightarrow> Panic e (AList.update (Partition msg) p2 ps))
              else Return (AList.update (Partition msg) p1 ps))"

text \<open>
  The bookkeeping of the \<open>premessages\<close> case of the main loop, up to the delivery loop:
  \<open>None\<close> is one of the two \<open>continue\<close> statements (the message is not delivered),
  \<open>Some\<close> the state with which the delivery loop is entered. The loop that adds buckets is
  \<open>add_buckets\<close>.
\<close>

function add_buckets :: "nat \<Rightarrow> uint8 list \<Rightarrow> uint8 list" where
  "add_buckets index bs = (if index \<ge> length bs then add_buckets index (bs @ [64]) else bs)"
  by pat_completeness auto
termination
  by (relation "measure (\<lambda>(index, bs). Suc index - length bs)") auto

declare add_buckets.simps [simp del]

definition premessage :: "partitions \<Rightarrow> ConsumerMessage \<Rightarrow> partitions option" where
  "premessage ps msg =
     (case map_of ps (Partition msg) of
        None \<Rightarrow> None
      | Some p \<Rightarrow>
          let delta = oldest p - Offset msg in
          if delta <s 0 then None
          else
            let index = nat (sint (signed_drop_bit 6 delta)) in
            Some (AList.update (Partition msg) (p\<lparr>buckets := add_buckets index (buckets p)\<rparr>) ps))"

section \<open>Reconciliation of the owned partitions\<close>

text \<open>
  \<open>difference\<close>: the keys of the owned map and a copy of the assigned slice are sorted
  (\<open>int32Slice.Less\<close> is the signed \<open><\<close>), then merged. The loop runs while both
  indices are in range and appends to \<open>added\<close> and \<open>removed\<close>; after it the rests
  \<open>o[i:]\<close> and \<open>n[j:]\<close> are appended. The result is \<open>(added, removed)\<close>.
\<close>

fun difference_loop ::
  "int32 list \<Rightarrow> int32 list \<Rightarrow> int32 list \<Rightarrow> int32 list \<Rightarrow> int32 list \<times> int32 list" where
  "difference_loop (x # os) (y # ns) added removed =
     (if x <s y then difference_loop os (y # ns) added (removed @ [x])
      else if y <s x then difference_loop (x # os) ns (added @ [y]) removed
      else difference_loop os ns added removed)"
| "difference_loop os ns added removed = (added @ ns, removed @ os)"

definition difference :: "partitions \<Rightarrow> int32 list \<Rightarrow> int32 list \<times> int32 list" where
  "difference old next =
     difference_loop (sort_key sint (map fst old)) (sort_key sint next) [] []"

text \<open>
  The assignment handed over by the client coordinator, and the state of \<open>consumer.run\<close>:
  its local variables \<open>generation_id\<close>, \<open>coor\<close>, \<open>member_id\<close> and \<open>partitions\<close> (prefixed
  \<open>w_\<close> where the name is also a field of \<open>assignment\<close>), the topic of the consumer, and
  the place of control: \<open>delivering = Some msg\<close> inside the delivery loop of the
  \<open>premessages\<close> case, \<open>None\<close> at the select of the main loop. Brokers are numbered.
\<close>

record assignment =
  generation_id :: int32
  coordinator :: nat
  member_id :: string
  assignments :: "(string \<times> int32 list) list"

record consumer_run =
  topic :: string
  partitions :: partitions
  w_generation_id :: int32
  w_coor :: nat
  w_member_id :: string
  delivering :: "ConsumerMessage option"

text \<open>
  What the worker does to the outside: a send on \<open>con.messages\<close>, an OffsetCommit request
  (its blocks are partition and offset; the retention time of the configuration is left
  out) and an OffsetFetch request. The errors it reports on the client's error channel
  change no state and are not recorded.
\<close>

record OffsetCommitRequest =
  ConsumerGroupGeneration :: int32
  ConsumerID :: string
  blocks :: "(int32 \<times> int64) list"

datatype action =
    Deliver ConsumerMessage
  | CommitOffset nat OffsetCommitRequest
  | FetchOffset nat "int32 list"

text \<open>
  The closure \<open>remove\<close>: each listed partition that is owned is deleted from the map and
  its \<open>offset\<close> field added to the request, which is then sent to \<open>coor\<close>.
\<close>

fun remove_loop ::
  "int32 list \<Rightarrow> partitions \<Rightarrow> (int32 \<times> int64) list \<Rightarrow> partitions \<times> (int32 \<times> int64) list" where
  "remove_loop [] ps bl = (ps, bl)"
| "remove_loop (p # removed) ps bl =
     (case map_of ps p of
        Some part \<Rightarrow> remove_loop removed (AList.delete p ps) (bl @ [(p, offset part)])
      | None \<Rightarrow> remove_loop removed ps bl)"

definition remove :: "consumer_run \<Rightarrow> int32 list \<Rightarrow> consumer_run \<times> action list" where
  "remove s removed =
     (if removed \<noteq> []
      then (case remove_loop removed (partitions s) [] of
              (ps, bl) \<Rightarrow>
                (s\<lparr>partitions := ps\<rparr>,
                 [CommitOffset (w_coor s)
                    \<lparr>ConsumerGroupGeneration = w_generation_id s,
                     ConsumerID = w_member_id s, blocks = bl\<rparr>]))
      else (s, []))"

text \<open>
  The closure \<open>assignment\<close>. The broker's answers come with the event: \<open>None\<close> when
  \<open>FetchOffset\<close> fails; otherwise a map that gives, for a partition, the offset at which
  its reader was started, and nothing when the block is missing, carries an error or
  \<open>ConsumePartition\<close> fails (the partition is then skipped).
\<close>

fun start_added :: "int32 list \<Rightarrow> (int32 \<rightharpoonup> int64) \<Rightarrow> partitions \<Rightarrow> partitions" where
  "start_added [] f ps = ps"
| "start_added (p # added) f ps =
     (case f p of
        None \<Rightarrow> start_added added f ps
      | Some off \<Rightarrow>
          start_added added f (AList.update p \<lparr>offset = off, buckets = [], oldest = off\<rparr> ps))"

definition assignment ::
  "consumer_run \<Rightarrow> assignment \<Rightarrow> (int32 \<rightharpoonup> int64) option \<Rightarrow> consumer_run \<times> action list" where
  "assignment s a fetch =
     (let new_partitions = (case map_of (assignments a) (topic s) of None \<Rightarrow> [] | Some l \<Rightarrow> l)
      in case difference (partitions s) new_partitions of
           (added, removed) \<Rightarrow>
             (case remove s removed of
                (s1, acts) \<Rightarrow>
                  let s2 = s1\<lparr>w_generation_id := generation_id a, w_coor := coordinator a,
                               w_member_id := member_id a\<rparr>
                  in (case fetch of
                        None \<Rightarrow> (s2, acts @ [FetchOffset (coordinator a) added])
                      | Some f \<Rightarrow>
                          (s2\<lparr>partitions := start_added added f (partitions s2)\<rparr>,
                           acts @ [FetchOffset (coordinator a) added]))))"

section \<open>The loop of \<open>consumer.run\<close>\<close>

text \<open>
  An event is a case that a select of the worker takes. The select of the main loop has
  the cases \<open>premessages\<close>, \<open>done\<close>, \<open>assignments\<close> and \<open>closed\<close>; the select of the
  delivery loop has the send on \<open>con.messages\<close> (\<open>Received\<close>: the application took the
  message), \<open>done\<close>, \<open>assignments\<close> and \<open>closed\<close>. A case that the current select does not
  have cannot be taken: \<open>step\<close> is \<open>None\<close> there.

  There is no event for \<open><-con.closed\<close>: \<open>Consume\<close> builds the consumer without making
  the channel \<open>closed\<close>, nothing assigns it later, and a receive from a nil channel is
  never ready. So the worker never returns; it ends by a panic only, and then the
  deferred function runs, which removes all owned partitions (its closing of the
  channels and its message to the client are not recorded).

  The \<open>break\<close> after the send leaves the select, not the enclosing \<open>for\<close>: the delivery
  loop goes round again with the same \<open>msg\<close>, and only the \<open>return\<close> of the \<open>closed\<close> case
  would leave it.
\<close>

datatype event =
    Premessage ConsumerMessage
  | Done ConsumerMessage
  | Assignment assignment "(int32 \<rightharpoonup> int64) option"
  | Received

datatype control = Running | Panicked panic

definition deferred :: "consumer_run \<Rightarrow> consumer_run \<times> action list" where
  "deferred s = (if partitions s \<noteq> [] then remove s (map fst (partitions s)) else (s, []))"

fun step :: "consumer_run \<Rightarrow> event \<Rightarrow> (control \<times> consumer_run \<times> action list) option" where
  "step s (Premessage msg) =
     (case delivering s of
        Some m \<Rightarrow> None
      | None \<Rightarrow>
          (case premessage (partitions s) msg of
             None \<Rightarrow> Some (Running, s, [])
           | Some ps \<Rightarrow> Some (Running, s\<lparr>partitions := ps, delivering := Some msg\<rparr>, [])))"
| "step s Received =
     (case delivering s of
        None \<Rightarrow> None
      | Some m \<Rightarrow> Some (Running, s, [Deliver m]))"
| "step s (Done msg) =
     (case done_msg (partitions s) msg of
        Return ps \<Rightarrow> Some (Running, s\<lparr>partitions := ps\<rparr>, [])
      | Panic e ps \<Rightarrow>
          (case deferred (s\<lparr>partitions := ps\<rparr>) of (s', acts) \<Rightarrow> Some (Panicked e, s', acts)))"
| "step s (Assignment a fetch) =
     (case assignment s a fetch of (s', acts) \<Rightarrow> Some (Running, s', acts))"

text \<open>
  A run takes the events in turn and collects the actions; after the worker has panicked
  nothing more can happen.
\<close>

fun run :: "consumer_run \<Rightarrow> event list \<Rightarrow> (control \<times> consumer_run \<times> action list) option" where
  "run s [] = Some (Running, s, [])"
| "run s (e # es) =
     (case step s e of
        None \<Rightarrow> None
      | Some (Running, s', acts) \<Rightarrow>
          (case run s' es of
             None \<Rightarrow> None
           | Some (c, s'', acts') \<Rightarrow> Some (c, s'', acts @ acts'))
      | Some (c, s', acts) \<Rightarrow> (if es = [] then Some (c, s', acts) else None))"

text \<open>
  The acknowledgements of a run are in order when every message passed to \<open>Done\<close> was
  sent to the application before, in the current generation (since the last assignment),
  and has not been passed to \<open>Done\<close> before. \<open>delivered\<close> and \<open>acked\<close> are the messages
  sent in this generation and the messages acknowledged so far.
\<close>

definition ack_allowed :: "ConsumerMessage list \<Rightarrow> ConsumerMessage list \<Rightarrow> event \<Rightarrow> bool" where
  "ack_allowed delivered acked e =
     (case e of Done m \<Rightarrow> m \<in> set delivered \<and> m \<notin> set acked | _ \<Rightarrow> True)"

fun delivered_after :: "consumer_run \<Rightarrow> ConsumerMessage list \<Rightarrow> event \<Rightarrow> ConsumerMessage list" where
  "delivered_after s delivered Received =
     (case delivering s of Some m \<Rightarrow> delivered @ [m] | None \<Rightarrow> delivered)"
| "delivered_after s delivered (Assignment a f) = []"
| "delivered_after s delivered e = delivered"

fun acked_after :: "ConsumerMessage list \<Rightarrow> event \<Rightarrow> ConsumerMessage list" where
  "acked_after acked (Done m) = acked @ [m]"
| "acked_after acked e = acked"

fun acks_follow_deliveries ::
  "consumer_run \<Rightarrow> ConsumerMessage list \<Rightarrow> ConsumerMessage list \<Rightarrow> event list \<Rightarrow> bool" where
  "acks_follow_deliveries s delivered acked [] = True"
| "acks_follow_deliveries s delivered acked (e # es) =
     (ack_allowed delivered acked e \<and>
      (case step s e of
         Some (Running, s', acts) \<Rightarrow>
           acks_follow_deliveries s' (delivered_after s delivered e) (acked_after acked e) es
       | _ \<Rightarrow> True))"


text \<open>The events of one generation: every case but a new assignment.\<close>

fun in_generation :: "event \<Rightarrow> bool" where
  "in_generation (Assignment a f) = False"
| "in_generation e = True"

text \<open>
  The tracker on its own: the bookkeeping of a delivery (a message that is not accepted
  leaves the state as it is) and of an acknowledgement, applied in turn; a panic ends
  the sequence. These are the sequences of deliveries and acknowledgements that the
  claims about the tracker speak of; in \<open>run\<close> the worker takes acknowledgements at any
  time, but no second message once the delivery loop is entered.
\<close>

datatype tracker_event = Delivery ConsumerMessage | Ack ConsumerMessage

fun track :: "partitions \<Rightarrow> tracker_event \<Rightarrow> partitions result" where
  "track ps (Delivery msg) =
     (case premessage ps msg of None \<Rightarrow> Return ps | Some ps' \<Rightarrow> Return ps')"
| "track ps (Ack msg) = done_msg ps msg"

fun track_all :: "partitions \<Rightarrow> tracker_event list \<Rightarrow> partitions result" where
  "track_all ps [] = Return ps"
| "track_all ps (e # es) =
     (case track ps e of
        Return ps' \<Rightarrow> track_all ps' es
      | Panic x ps' \<Rightarrow> Panic x ps')"

section \<open>The round-robin partitioner\<close>

text \<open>
  Go's \<open>error\<close> values: an error of the transport (from sarama), a Kafka error code used
  as an error, an error made with \<open>fmt.Errorf\<close>, and the wrapper \<open>Error\<close> of this package
  with its context (\<open>makeError\<close>).
\<close>

datatype KError = ErrNoError | ErrNotCoordinatorForConsumer | ErrOtherCode nat

datatype error =
    Transport string
  | Kafka KError
  | Errorf string
  | Error string error

record ConsumerGroupMemberMetadata =
  Version :: "16 word"
  Topics :: "string list"

record ConsumerGroupMemberAssignment =
  ma_Version :: "16 word"
  ma_Topics :: "(string \<times> int32 list) list"

text \<open>
  Go maps are association lists. Go leaves the order in which \<open>range\<close> visits a map
  open: for \<open>by_member\<close> it is the order of the list that \<open>GetMembers\<close> is given as, for
  \<open>by_topic\<close> and \<open>assignments\<close> the model takes the order of first insertion (the entries
  of different topics do not touch each other).

  First loop of \<open>Partition\<close>: members whose metadata has a version other than 1 are
  skipped, every other member is appended to the list of each topic it requests.
\<close>

fun add_topics ::
  "string \<Rightarrow> string list \<Rightarrow> (string \<times> string list) list \<Rightarrow> (string \<times> string list) list" where
  "add_topics member [] by_topic = by_topic"
| "add_topics member (t # ts) by_topic =
     add_topics member ts
       (AList.update t ((case map_of by_topic t of None \<Rightarrow> [] | Some ms \<Rightarrow> ms) @ [member]) by_topic)"

fun group_by_topic ::
  "(string \<times> ConsumerGroupMemberMetadata) list \<Rightarrow> (string \<times> string list) list
   \<Rightarrow> (string \<times> string list) list" where
  "group_by_topic [] by_topic = by_topic"
| "group_by_topic ((member, request) # by_member) by_topic =
     (if Version request \<noteq> 1 then group_by_topic by_member by_topic
      else group_by_topic by_member (add_topics member (Topics request) by_topic))"

text \<open>
  The inner loop \<open>for i, member_id := range members\<close> (\<open>member_id\<close> is \<open>member\<close> here): the
  member at index \<open>i\<close> gets \<open>partitions[i % len(partitions)]\<close> appended to its list for
  the topic. It runs only when \<open>partitions\<close> is not empty.
\<close>

fun assign_members ::
  "string \<Rightarrow> int32 list \<Rightarrow> nat \<Rightarrow> string list
   \<Rightarrow> (string \<times> (string \<times> int32 list) list) list
   \<Rightarrow> (string \<times> (string \<times> int32 list) list) list" where
  "assign_members t ps i [] asg = asg"
| "assign_members t ps i (member # members) asg =
     (let topics = (case map_of asg member of None \<Rightarrow> [] | Some ts \<Rightarrow> ts);
          p = ps ! (i mod length ps);
          topics' = AList.update t ((case map_of topics t of None \<Rightarrow> [] | Some l \<Rightarrow> l) @ [p]) topics
      in assign_members t ps (Suc i) members (AList.update member topics' asg))"

text \<open>
  The loop over \<open>by_topic\<close>; \<open>client\<close> is \<open>client.Partitions\<close> of the Kafka client. An error
  of the look-up ends the partitioning, a topic without partitions is skipped.
\<close>

fun assign_topics ::
  "(string \<Rightarrow> error + int32 list) \<Rightarrow> (string \<times> string list) list
   \<Rightarrow> (string \<times> (string \<times> int32 list) list) list
   \<Rightarrow> error + (string \<times> (string \<times> int32 list) list) list" where
  "assign_topics client [] asg = Inr asg"
| "assign_topics client ((t, members) # by_topic) asg =
     (case client t of
        Inl err \<Rightarrow> Inl err
      | Inr ps \<Rightarrow>
          if ps = [] then assign_topics client by_topic asg
          else assign_topics client by_topic (assign_members t ps 0 members asg))"

text \<open>
  \<open>RoundRobin.Partition\<close>: the first argument is the result of \<open>jresp.GetMembers()\<close>. The
  result is the error returned, or the member assignments added to the sync request.
\<close>

definition RoundRobin_Partition ::
  "error + (string \<times> ConsumerGroupMemberMetadata) list \<Rightarrow> (string \<Rightarrow> error + int32 list)
   \<Rightarrow> error + (string \<times> ConsumerGroupMemberAssignment) list" where
  "RoundRobin_Partition get_members client =
     (case get_members of
        Inl err \<Rightarrow> Inl err
      | Inr by_member \<Rightarrow>
          (case assign_topics client (group_by_topic by_member []) [] of
             Inl err \<Rightarrow> Inl err
           | Inr asg \<Rightarrow>
               Inr (map (\<lambda>(member, topics).
                          (member, \<lparr>ma_Version = 1, ma_Topics = topics\<rparr>)) asg)))"

text \<open>
  \<open>RoundRobin.ParseSync\<close>: the argument is the result of \<open>sresp.GetMemberAssignment()\<close>,
  the decoding of the bytes that the broker hands to this member. For a member that the
  leader has given an assignment, these are the bytes of that assignment.
\<close>

definition RoundRobin_ParseSync ::
  "error + ConsumerGroupMemberAssignment \<Rightarrow> error + (string \<times> int32 list) list" where
  "RoundRobin_ParseSync get_member_assignment =
     (case get_member_assignment of
        Inl err \<Rightarrow> Inl err
      | Inr ma \<Rightarrow>
          if ma_Version ma \<noteq> 1 then Inl (Errorf ''unsupported MemberAssignment version'')
          else Inr (ma_Topics ma))"

section \<open>The client coordinator (\<open>client.run\<close>)\<close>

text \<open>
  A consumer is known by its topic and its channels (numbered; \<open>None\<close> is a nil
  channel); equality of the records stands for equality of the pointers. \<open>Consume\<close>
  makes the channels \<open>messages\<close> and \<open>errors\<close> (and those the worker reads, which play no
  role here) but not the channel \<open>closed\<close>. The map \<open>consumers\<close> of \<open>client.run\<close> goes
  from topic to consumer.
\<close>

record consumer =
  con_topic :: string
  messages :: nat
  errors :: nat
  closed :: "nat option"

definition Consume_makes :: "string \<Rightarrow> nat \<Rightarrow> nat \<Rightarrow> consumer" where
  "Consume_makes t m e = \<lparr>con_topic = t, messages = m, errors = e, closed = None\<rparr>"

text \<open>
  The state of \<open>client.run\<close>: its variables \<open>member_id\<close> (here \<open>cl_member_id\<close>),
  \<open>consumers\<close> and \<open>pause\<close>, and whether \<open>early_rc\<close> is still set. The context of the
  heartbeat loop is what the loop reads: generation, coordinator and the member id of
  the join response.
\<close>

record client_run =
  cl_member_id :: string
  consumers :: "(string \<times> consumer) list"
  pause :: bool
  early_rc :: bool

record heartbeat_context =
  hb_generation_id :: int32
  hb_coor :: nat
  hb_member_id :: string

text \<open>
  The places where \<open>client.run\<close> waits for the outside: the top of the join loop (from
  there one pass of the loop body runs, with its requests to the broker), the pause loop,
  the heartbeat loop, and the refresh of the coordinator after \<open>break join_loop\<close>.
\<close>

datatype place =
    JoinTop
  | Paused
  | Steady heartbeat_context
  | Refreshing
  | Stopped
  | Crashed panic

text \<open>The places where \<open>client.run\<close> waits inside the join loop.\<close>

fun at_rest :: "place \<Rightarrow> bool" where
  "at_rest JoinTop = True"
| "at_rest Paused = True"
| "at_rest (Steady hb) = True"
| "at_rest pl = False"

text \<open>
  The responses. A request to a broker returns a pair \<open>(response, err)\<close> of a pointer and
  an error, each of which may be nil; reading a field of a nil response is a panic.
  Only the fields that \<open>client.run\<close> reads are kept.
\<close>

record JoinGroupResponse =
  Err :: KError
  GenerationId :: int32
  LeaderId :: string
  MemberId :: string

record SyncGroupResponse =
  sync_Err :: KError

record HeartbeatResponse =
  heartbeat_Err :: KError

record LeaveGroupResponse =
  leave_Err :: KError

record JoinGroupRequest =
  jreq_MemberId :: string
  jreq_Topics :: "string list"

record SyncGroupRequest =
  sreq_GenerationId :: int32
  sreq_MemberId :: string
  GroupAssignments :: "(string \<times> ConsumerGroupMemberAssignment) list"

text \<open>
  What one pass of the join loop is answered: by \<open>client.Coordinator\<close>, by
  \<open>coor.JoinGroup\<close>, by the partitioner's \<open>Partition\<close> (the error, or the assignments it
  adds to the sync request), by \<open>coor.SyncGroup\<close> and by the partitioner's \<open>ParseSync\<close>.
\<close>

record responses =
  Coordinator_response :: "error + nat"
  JoinGroup_response :: "JoinGroupResponse option \<times> error option"
  Partition_result :: "error + (string \<times> ConsumerGroupMemberAssignment) list"
  SyncGroup_response :: "SyncGroupResponse option \<times> error option"
  ParseSync_result :: "error + (string \<times> int32 list) list"

text \<open>What \<open>client.run\<close> does to the outside.\<close>

datatype client_action =
    CallCoordinator
  | CallJoinGroup nat JoinGroupRequest
  | CallPartition
  | CallSyncGroup nat SyncGroupRequest
  | CallHeartbeat nat
  | CallLeaveGroup nat
  | CallRefreshCoordinator
  | DeliverError error
  | EarlyReturn "error option"
  | SendAssignment consumer assignment
  | Reply consumer "error option"
  | StartConsumer consumer
  | AsyncClose consumer
  | CloseErrors

text \<open>
  \<open>continue join_loop\<close>, and the start of the join loop after the refresh: at the top of
  the loop body a set \<open>pause\<close> is cleared and the pause loop waits for its timer of one
  second.
\<close>

definition continue_join_loop ::
  "client_run \<Rightarrow> client_action list \<Rightarrow> place \<times> client_run \<times> client_action list" where
  "continue_join_loop s acts =
     (if pause s then (Paused, s\<lparr>pause := False\<rparr>, acts) else (JoinTop, s, acts))"

text \<open>
  \<open>break join_loop\<close> leads to \<open>RefreshCoordinator\<close>; \<open>pause\<close> keeps its value until then.
\<close>

definition break_join_loop ::
  "client_run \<Rightarrow> client_action list \<Rightarrow> place \<times> client_run \<times> client_action list" where
  "break_join_loop s acts = (Refreshing, s, acts)"

text \<open>
  The part of the loop body from \<open>coor.SyncGroup(sreq)\<close> on, for a member that is not
  the leader. The first test is \<open>err != nil && sresp.Err == ErrNotCoordinatorForConsumer\<close>:
  with an error it reads \<open>sresp.Err\<close>.
\<close>

definition sync_group ::
  "client_run \<Rightarrow> responses \<Rightarrow> nat \<Rightarrow> JoinGroupResponse \<Rightarrow> client_action list
   \<Rightarrow> place \<times> client_run \<times> client_action list" where
  "sync_group s r coor jresp acts0 =
     (let sreq = \<lparr>sreq_GenerationId = GenerationId jresp, sreq_MemberId = MemberId jresp,
                  GroupAssignments = []\<rparr>;
          acts = acts0 @ [CallSyncGroup coor sreq]
      in case SyncGroup_response r of
           (None, err) \<Rightarrow> (Crashed NilDereference, s, acts)
         | (Some sresp, Some err) \<Rightarrow>
             if sync_Err sresp = ErrNotCoordinatorForConsumer then break_join_loop s acts
             else continue_join_loop (s\<lparr>pause := True\<rparr>)
                    (acts @ [DeliverError (Error ''synchronizing group'' err)])
         | (Some sresp, None) \<Rightarrow>
             if sync_Err sresp \<noteq> ErrNoError
             then continue_join_loop (s\<lparr>pause := True\<rparr>)
                    (acts @ [DeliverError (Error ''synchronizing group'' (Kafka (sync_Err sresp)))])
             else
               (case ParseSync_result r of
                  Inl err \<Rightarrow>
                    continue_join_loop (s\<lparr>pause := True\<rparr>)
                      (acts @ [DeliverError (Error ''decoding member assignments'' err)])
                | Inr asg \<Rightarrow>
                    let a = \<lparr>generation_id = GenerationId jresp, coordinator = coor,
                             member_id = cl_member_id s, assignments = asg\<rparr>
                    in (Steady \<lparr>hb_generation_id = GenerationId jresp, hb_coor = coor,
                                hb_member_id = cl_member_id s\<rparr>,
                        s, acts @ map (\<lambda>(t, con). SendAssignment con a) (consumers s))))"

text \<open>
  One pass of the body of the join loop after the pause, up to the place where it waits
  next. When the join response names this member as leader the pass ends after the call
  of the partitioner with \<open>pause = true; continue join_loop\<close>.
\<close>

definition join_pass ::
  "client_run \<Rightarrow> responses \<Rightarrow> place \<times> client_run \<times> client_action list" where
  "join_pass s r =
     (case Coordinator_response r of
        Inl err \<Rightarrow>
          if early_rc s
          then (Stopped, s,
                [CallCoordinator, EarlyReturn (Some (Error ''contacting coordinating broker'' err))])
          else break_join_loop (s\<lparr>pause := True\<rparr>)
                 [CallCoordinator, DeliverError (Error ''contacting coordinating broker'' err)]
      | Inr coor \<Rightarrow>
          let jreq = \<lparr>jreq_MemberId = cl_member_id s, jreq_Topics = map fst (consumers s)\<rparr>;
              acts1 = [CallCoordinator, CallJoinGroup coor jreq]
          in case JoinGroup_response r of
               (jresp, Some err) \<Rightarrow> break_join_loop s acts1
             | (None, None) \<Rightarrow> (Crashed NilDereference, s, acts1)
             | (Some jresp, None) \<Rightarrow>
                 if Err jresp = ErrNotCoordinatorForConsumer then break_join_loop s acts1
                 else if Err jresp \<noteq> ErrNoError
                 then (if early_rc s
                       then (Stopped, s,
                             acts1 @ [EarlyReturn (Some (Error ''joining group'' (Kafka (Err jresp))))])
                       else continue_join_loop (s\<lparr>pause := True\<rparr>)
                              (acts1 @ [DeliverError (Error ''joining group'' (Kafka (Err jresp)))]))
                 else
                   let acts2 = acts1 @ (if early_rc s then [EarlyReturn None] else []);
                       s1 = s\<lparr>early_rc := False, cl_member_id := MemberId jresp\<rparr>
                   in if LeaderId jresp = cl_member_id s1
                      then (case Partition_result r of
                              Inl err \<Rightarrow>
                                continue_join_loop (s1\<lparr>pause := True\<rparr>)
                                  (acts2 @ [CallPartition, DeliverError (Error ''partitioning'' err)])
                            | Inr ga \<Rightarrow>
                                continue_join_loop (s1\<lparr>pause := True\<rparr>) (acts2 @ [CallPartition]))
                      else sync_group s1 r coor jresp acts2)"

text \<open>
  The closures \<open>add\<close>, \<open>rem\<close> and \<open>shutdown\<close>. \<open>add\<close> gets the new consumer and the result of
  \<open>sarama.NewConsumerFromClient\<close> (asked only when the topic is free); it returns the new
  state and what it sends on \<open>add.reply\<close>, and \<open>add_actions\<close> are its actions: the start of
  the worker when the consumer is registered, and the reply. \<open>shutdown\<close> calls \<open>AsyncClose\<close> on every
  consumer, which closes its channel \<open>closed\<close>: closing a nil channel panics. After the
  loop it waits for the workers and closes the error channel.
\<close>

definition add :: "client_run \<Rightarrow> consumer \<Rightarrow> error option \<Rightarrow> client_run \<times> error option" where
  "add s con new_consumer =
     (case map_of (consumers s) (con_topic con) of
        Some c \<Rightarrow> (s, Some (Error ''Consume'' (Errorf ''topic is already being consumed'')))
      | None \<Rightarrow>
          (case new_consumer of
             Some err \<Rightarrow> (s, Some (Error ''Consume sarama.NewConsumerFromClient'' err))
           | None \<Rightarrow> (s\<lparr>consumers := AList.update (con_topic con) con (consumers s)\<rparr>, None)))"

definition add_actions :: "consumer \<Rightarrow> error option \<Rightarrow> client_action list" where
  "add_actions con reply =
     (case reply of
        Some err \<Rightarrow> [Reply con (Some err)]
      | None \<Rightarrow> [StartConsumer con, Reply con None])"

definition rem :: "client_run \<Rightarrow> consumer \<Rightarrow> client_run" where
  "rem s con =
     (if map_of (consumers s) (con_topic con) = Some con
      then s\<lparr>consumers := AList.delete (con_topic con) (consumers s)\<rparr>
      else s)"

fun shutdown_loop ::
  "(string \<times> consumer) list \<Rightarrow> client_action list \<Rightarrow> place \<times> client_action list" where
  "shutdown_loop [] acts = (Stopped, acts @ [CloseErrors])"
| "shutdown_loop ((t, con) # cs) acts =
     (case closed con of
        None \<Rightarrow> (Crashed CloseOfNilChannel, acts)
      | Some ch \<Rightarrow> shutdown_loop cs (acts @ [AsyncClose con]))"

definition shutdown ::
  "client_run \<Rightarrow> client_action list \<Rightarrow> place \<times> client_run \<times> client_action list" where
  "shutdown s acts = (case shutdown_loop (consumers s) acts of (pl, acts') \<Rightarrow> (pl, s, acts'))"

text \<open>
  \<open>client.Consume\<close>: it makes the consumer, sends it to \<open>client.run\<close> and waits for the
  reply; \<open>client.run\<close> takes it in the pause loop or in the heartbeat loop and calls \<open>add\<close>.
  The result is what the caller gets, with the state of \<open>client.run\<close> after \<open>add\<close>.
\<close>

definition Consume ::
  "client_run \<Rightarrow> string \<Rightarrow> nat \<Rightarrow> nat \<Rightarrow> error option
   \<Rightarrow> (consumer option \<times> error option) \<times> client_run" where
  "Consume s t m e new_consumer =
     (case add s (Consume_makes t m e) new_consumer of
        (s', reply) \<Rightarrow>
          ((case reply of
              Some err \<Rightarrow> (None, Some err)
            | None \<Rightarrow> (Some (Consume_makes t m e), None)),
           s'))"

text \<open>
  The events of \<open>client.run\<close>: the timer of the pause loop, \<open>Close\<close> (with the answer to
  \<open>LeaveGroup\<close>, asked in the heartbeat loop only), a consumer to add (with the result of
  \<open>sarama.NewConsumerFromClient\<close>) or to remove, a pass of the join loop, the heartbeat
  timer with the answer to the heartbeat, and the answer to \<open>RefreshCoordinator\<close>.
\<close>

datatype client_event =
    PauseTimeout
  | ClientClosed "LeaveGroupResponse option \<times> error option"
  | AddConsumer consumer "error option"
  | RemConsumer consumer
  | JoinPass responses
  | HeartbeatTimer "HeartbeatResponse option \<times> error option"
  | Refreshed "error option"

fun client_step ::
  "place \<Rightarrow> client_run \<Rightarrow> client_event \<Rightarrow> (place \<times> client_run \<times> client_action list) option" where
  "client_step Paused s PauseTimeout = Some (JoinTop, s, [])"
| "client_step Paused s (ClientClosed l) = Some (shutdown s [])"
| "client_step Paused s (AddConsumer con n) =
     (case add s con n of (s', reply) \<Rightarrow> Some (Paused, s', add_actions con reply))"
| "client_step Paused s (RemConsumer con) = Some (Paused, rem s con, [])"
| "client_step JoinTop s (JoinPass r) = Some (join_pass s r)"
| "client_step (Steady hb) s (ClientClosed l) =
     (case l of
        (resp, Some err) \<Rightarrow>
          Some (shutdown s
                  [CallLeaveGroup (hb_coor hb), DeliverError (Error ''leaving group'' err)])
      | (None, None) \<Rightarrow> Some (Crashed NilDereference, s, [CallLeaveGroup (hb_coor hb)])
      | (Some resp, None) \<Rightarrow>
          if leave_Err resp \<noteq> ErrNoError
          then Some (shutdown s
                       [CallLeaveGroup (hb_coor hb),
                        DeliverError (Error ''leaving group'' (Kafka (leave_Err resp)))])
          else Some (shutdown s [CallLeaveGroup (hb_coor hb)]))"
| "client_step (Steady hb) s (HeartbeatTimer h) =
     (case h of
        (resp, Some err) \<Rightarrow> Some (break_join_loop s [CallHeartbeat (hb_coor hb)])
      | (None, None) \<Rightarrow> Some (Crashed NilDereference, s, [CallHeartbeat (hb_coor hb)])
      | (Some resp, None) \<Rightarrow>
          if heartbeat_Err resp = ErrNotCoordinatorForConsumer
          then Some (break_join_loop s [CallHeartbeat (hb_coor hb)])
          else if heartbeat_Err resp \<noteq> ErrNoError
          then Some (continue_join_loop s [CallHeartbeat (hb_coor hb)])
          else Some (Steady hb, s, [CallHeartbeat (hb_coor hb)]))"
| "client_step (Steady hb) s (AddConsumer con n) =
     (case add s con n of (s', reply) \<Rightarrow> Some (continue_join_loop s' (add_actions con reply)))"
| "client_step (Steady hb) s (RemConsumer con) = Some (continue_join_loop (rem s con) [])"
| "client_step Refreshing s (Refreshed e) =
     (case e of
        None \<Rightarrow> Some (continue_join_loop s [CallRefreshCoordinator])
      | Some err \<Rightarrow>
          if early_rc s
          then Some (Stopped, s,
                     [CallRefreshCoordinator,
                      EarlyReturn (Some (Error ''refreshing coordinating broker'' err))])
          else Some (continue_join_loop (s\<lparr>pause := True\<rparr>)
                       [CallRefreshCoordinator,
                        DeliverError (Error ''refreshing coordinating broker'' err)]))"
| "client_step pl s e = None"

fun client_steps ::
  "place \<Rightarrow> client_run \<Rightarrow> client_event list \<Rightarrow> (place \<times> client_run \<times> client_action list) option" where
  "client_steps pl s [] = Some (pl, s, [])"
| "client_steps pl s (e # es) =
     (case client_step pl s e of
        None \<Rightarrow> None
      | Some (pl', s', acts) \<Rightarrow>
          (case client_steps pl' s' es of
             None \<Rightarrow> None
           | Some (pl'', s'', acts') \<Rightarrow> Some (pl'', s'', acts @ acts')))"

text \<open>Messages, event sequences, a client and responses for the concrete runs below.\<close>

definition message :: "int32 \<Rightarrow> nat \<Rightarrow> ConsumerMessage" where
  "message k n = \<lparr>Partition = k, Offset = of_nat n\<rparr>"

definition deliveries :: "int32 \<Rightarrow> nat list \<Rightarrow> tracker_event list" where
  "deliveries k ns = map (\<lambda>n. Delivery (message k n)) ns"

definition acks :: "int32 \<Rightarrow> nat list \<Rightarrow> tracker_event list" where
  "acks k ns = map (\<lambda>n. Ack (message k n)) ns"

definition worker :: "int64 \<Rightarrow> consumer_run" where
  "worker off =
     \<lparr>topic = ''t'', partitions = [(0, \<lparr>offset = off, buckets = [], oldest = off\<rparr>)],
      w_generation_id = 1, w_coor = 0, w_member_id = ''m'', delivering = None\<rparr>"

definition example_client :: client_run where
  "example_client =
     \<lparr>cl_member_id = ''me'',
      consumers = [(''t'', Consume_makes ''t'' 0 1)],
      pause = False, early_rc = False\<rparr>"

definition example_responses :: responses where
  "example_responses =
     \<lparr>Coordinator_response = Inr 7,
      JoinGroup_response =
        (Some \<lparr>Err = ErrNoError, GenerationId = 3, LeaderId = ''other'', MemberId = ''me''\<rparr>, None),
      Partition_result = Inr [(''me'', \<lparr>ma_Version = 1, ma_Topics = [(''t'', [0])]\<rparr>)],
      SyncGroup_response = (Some \<lparr>sync_Err = ErrNoError\<rparr>, None),
      ParseSync_result = Inr [(''t'', [0, 1])]\<rparr>"

section \<open>Basic facts about the tracker loops\<close>

lemma advance_Nil: "buckets p = [] \<Longrightarrow> advance p = Panic IndexOutOfRange p"
  by (subst advance.simps) simp

lemma advance_Cons:
  "buckets p = b # bs \<Longrightarrow>
   advance p =
     (if b = 0
      then advance (p\<lparr>offset := offset p + 64, oldest := offset p + 64, buckets := bs\<rparr>)
      else Return p)"
  by (subst advance.simps) simp

lemma add_buckets_eq: "add_buckets index bs = bs @ replicate (Suc index - length bs) 64"
proof (induction index bs rule: add_buckets.induct)
  case (1 index bs)
  show ?case
  proof (cases "index \<ge> length bs")
    case True
    then have "Suc index - length bs = Suc (index - length bs)" by simp
    with True "1" show ?thesis
      by (subst add_buckets.simps) (simp add: replicate_app_Cons_same)
  next
    case False
    then show ?thesis by (subst add_buckets.simps) simp
  qed
qed

section \<open>The tracker's window (claim C1)\<close>

text \<open>
  For offsets that are not negative the test \<open>delta < 0\<close> on
  \<open>delta = oldest - msg.Offset\<close> holds exactly for the offsets above \<open>oldest\<close>: every
  message and every acknowledgement above \<open>oldest\<close> is dropped.
\<close>

lemma sless_sub_iff:
  fixes a b :: int64
  assumes "0 \<le> sint a" and "0 \<le> sint b"
  shows "a - b <s 0 \<longleftrightarrow> a <s b"
proof -
  have ha: "sint a < 2 ^ 63" using sint_lt [of a] by simp
  have hb: "sint b < 2 ^ 63" using sint_lt [of b] by simp
  have "sint (a - b) = signed_take_bit 63 (sint a - sint b)"
    by (simp add: sint_word_ariths)
  also have "\<dots> = sint a - sint b"
    using assms ha hb by (intro signed_take_bit_int_eq_self) simp_all
  finally show ?thesis by (simp add: word_sless_alt)
qed

lemma dropped_above_oldest:
  assumes "map_of ps (Partition msg) = Some p"
    and "0 \<le> sint (oldest p)" and "0 \<le> sint (Offset msg)"
    and "oldest p <s Offset msg"
  shows "premessage ps msg = None \<and> done_msg ps msg = Return ps"
  using assms by (simp add: premessage_def done_msg_def sless_sub_iff)

text \<open>
  C1. The claim: the tracker computes \<open>delta = o - oldest\<close>, so that an acknowledgement at
  an offset at or above \<open>oldest\<close> and inside the bucket window is counted and one below
  \<open>oldest\<close> is dropped. The code computes \<open>partition.oldest - msg.Offset\<close>. With
  \<open>oldest = 10\<close> and the single bucket \<open>[64]\<close> (the window 10..73): the acknowledgement of
  offset 11 is dropped, the acknowledgement of offset 9 is counted, and a message arriving
  with offset 11 is not tracked and not delivered.
\<close>

theorem done_msg_window_reversed:
  "done_msg [(0, \<lparr>offset = 10, buckets = [64], oldest = 10\<rparr>)] \<lparr>Partition = 0, Offset = 11\<rparr>
     = Return [(0, \<lparr>offset = 10, buckets = [64], oldest = 10\<rparr>)]
   \<and> done_msg [(0, \<lparr>offset = 10, buckets = [64], oldest = 10\<rparr>)] \<lparr>Partition = 0, Offset = 9\<rparr>
     = Return [(0, \<lparr>offset = 10, buckets = [63], oldest = 10\<rparr>)]
   \<and> premessage [(0, \<lparr>offset = 10, buckets = [64], oldest = 10\<rparr>)] \<lparr>Partition = 0, Offset = 11\<rparr>
     = None"
  by (simp add: done_msg_def premessage_def word_sless_alt advance_Cons)

section \<open>The delivery loop (claim C2)\<close>

text \<open>
  Once a message is accepted the worker is in the delivery loop, and every time the
  application takes the message the loop offers the same message again.
\<close>

lemma delivery_loop_repeats:
  "delivering s = Some msg \<Longrightarrow>
   run s (replicate n Received) = Some (Running, s, replicate n (Deliver msg))"
  by (induction n) simp_all

lemma delivery_loop_entered:
  "delivering s = None \<Longrightarrow> premessage (partitions s) msg = Some ps \<Longrightarrow>
   step s (Premessage msg) = Some (Running, s\<lparr>partitions := ps, delivering := Some msg\<rparr>, [])"
  by simp

lemma delivery_loop_reads_no_premessage:
  "delivering s = Some msg \<Longrightarrow> step s (Premessage msg') = None"
  by simp

text \<open>
  C2. The claim: the delivery step sends an accepted message exactly once and returns to
  the main loop. In the code the \<open>break\<close> after \<open>con.messages <- msg\<close> leaves only the
  select. For the worker that owns partition 0 at offset 10 and the message at offset 10:
  after the application has taken the message twice, the worker has sent it twice and is
  still in the delivery loop with it; and after the first send the next message of the
  partition reader cannot be taken, the select of the delivery loop has no case for it.
\<close>

theorem delivery_loop_sends_again:
  "run (worker 10) [Premessage (message 0 10), Received, Received]
     = Some (Running,
             (worker 10)\<lparr>partitions := [(0, \<lparr>offset = 10, buckets = [64], oldest = 10\<rparr>)],
                          delivering := Some (message 0 10)\<rparr>,
             [Deliver (message 0 10), Deliver (message 0 10)])
   \<and> run (worker 10) [Premessage (message 0 10), Received, Premessage (message 0 9)] = None"
  by (simp add: worker_def message_def premessage_def word_sless_alt add_buckets_eq)

section \<open>Acknowledgements out of order (claim C3)\<close>

text \<open>
  C3. The claim: with \<open>oldest = offset = 0\<close>, after the messages at offsets 0 to 63 are
  delivered and those at 63, 62, ..., 1 acknowledged the committable offset is still 0, and
  the acknowledgement of offset 0 moves it to 64. In the code, of the 64 messages only the
  one at offset 0 is tracked (the others have \<open>oldest - o < 0\<close>), the acknowledgements of
  63, ..., 1 are dropped, and the acknowledgement of offset 0 lowers the only bucket from
  64 to 63: the offset stays 0. The same holds in the loop of the worker, where the
  acknowledgements arrive while the worker is in the delivery loop with the message at
  offset 0.
\<close>

theorem out_of_order_acks_offset_stays_0:
  "track_all [(0, \<lparr>offset = 0, buckets = [], oldest = 0\<rparr>)]
       (deliveries 0 [0..<64] @ acks 0 (rev [1..<64]))
     = Return [(0, \<lparr>offset = 0, buckets = [64], oldest = 0\<rparr>)]
   \<and> done_msg [(0, \<lparr>offset = 0, buckets = [64], oldest = 0\<rparr>)] (message 0 0)
     = Return [(0, \<lparr>offset = 0, buckets = [63], oldest = 0\<rparr>)]
   \<and> run (worker 0)
       ([Premessage (message 0 0), Received] @ map (\<lambda>n. Done (message 0 n)) (rev [0..<64]))
     = Some (Running,
             (worker 0)\<lparr>partitions := [(0, \<lparr>offset = 0, buckets = [63], oldest = 0\<rparr>)],
                         delivering := Some (message 0 0)\<rparr>,
             [Deliver (message 0 0)])"
  by code_simp

section \<open>The advance loop and the empty slice (claim C10)\<close>

text \<open>
  The loop \<open>for partition.buckets[0] == 0\<close> tests \<open>buckets[0]\<close> again after it has cut the
  front bucket off, and nothing checks the length: it returns exactly when some bucket is
  not 0; when every bucket is 0 it cuts them all off and then indexes the empty slice.
\<close>

lemma advance_returns_iff: "returns (advance p) \<longleftrightarrow> (\<exists>b\<in>set (buckets p). b \<noteq> 0)"
proof (induction p rule: advance.induct)
  case (1 p)
  show ?case
  proof (cases "buckets p")
    case Nil
    then show ?thesis by (simp add: advance_Nil)
  next
    case (Cons b bs)
    then show ?thesis using "1.IH" [OF Cons] by (cases "b = 0") (simp_all add: advance_Cons)
  qed
qed














text \<open>
  The condition on the acknowledgements is needed. The delivery loop sends the message
  at offset 0 again and again; when the application passes what it reads to \<open>Done\<close> 64
  times, the bucket comes to 0, the advance loop cuts it off and indexes the empty slice,
  and the deferred function commits offset 64.
\<close>

lemma repeated_acks_index_empty_slice:
  "run (worker 0) (Premessage (message 0 0) # concat (replicate 64 [Received, Done (message 0 0)]))
     = Some (Panicked IndexOutOfRange,
             (worker 0)\<lparr>partitions := [], delivering := Some (message 0 0)\<rparr>,
             replicate 64 (Deliver (message 0 0)) @
             [CommitOffset 0 \<lparr>ConsumerGroupGeneration = 1, ConsumerID = ''m'', blocks = [(0, 64)]\<rparr>])
   \<and> \<not> acks_follow_deliveries (worker 0) [] []
         (Premessage (message 0 0) # concat (replicate 64 [Received, Done (message 0 0)]))"
  by code_simp

section \<open>The committable offset does not go back (claim C6)\<close>

text \<open>
  The offset of a partition changes in the advance loop only, by \<open>+= 64\<close> on an \<open>int64\<close>.
  The loop runs once for each leading bucket that is 0, and a bucket becomes 0 only by an
  acknowledgement. So the offset plus 64 for every bucket that is 0 grows by at most 64
  with each event, and as long as that sum stays below \<open>2 ^ 63\<close> the addition does not
  wrap.
\<close>

lemma sint_add_64:
  fixes x :: int64
  assumes "sint x + 64 < 2 ^ 63"
  shows "sint (x + 64) = sint x + 64"
proof -
  have lo: "- (2 ^ 63) \<le> sint x" using sint_ge [of x] by simp
  have "sint (x + 64) = signed_take_bit 63 (sint x + 64)"
    by (simp add: sint_word_add)
  also have "\<dots> = sint x + 64"
    using assms lo by (intro signed_take_bit_int_eq_self) simp_all
  finally show ?thesis .
qed

lemma advance_potential:
  "sint (offset p) + 64 * int (count_list (buckets p) 0) < 2 ^ 63 \<Longrightarrow>
   sint (offset p) \<le> sint (offset (final (advance p))) \<and>
   sint (offset (final (advance p))) + 64 * int (count_list (buckets (final (advance p))) 0)
     = sint (offset p) + 64 * int (count_list (buckets p) 0)"
proof (induction p rule: advance.induct)
  case (1 p)
  show ?case
  proof (cases "buckets p")
    case Nil
    then show ?thesis by (simp add: advance_Nil)
  next
    case (Cons b bs)
    show ?thesis
    proof (cases "b = 0")
      case False
      with Cons show ?thesis by (simp add: advance_Cons)
    next
      case True
      let ?q = "p\<lparr>offset := offset p + 64, oldest := offset p + 64, buckets := bs\<rparr>"
      from "1.prems" Cons True have small: "sint (offset p) + 64 < 2 ^ 63" by simp
      have off: "sint (offset ?q) = sint (offset p) + 64"
        using sint_add_64 [OF small] by simp
      have pot: "sint (offset ?q) + 64 * int (count_list (buckets ?q) 0)
                 = sint (offset p) + 64 * int (count_list (buckets p) 0)"
        using off Cons True by simp
      with "1.prems" have "sint (offset ?q) + 64 * int (count_list (buckets ?q) 0) < 2 ^ 63"
        by simp
      from "1.IH" [OF Cons True this] pot off Cons True show ?thesis
        by (simp add: advance_Cons)
    qed
  qed
qed

lemma count_list_update_le:
  "i < length bs \<Longrightarrow> count_list (bs[i := v]) z \<le> Suc (count_list bs z)"
proof (induction bs arbitrary: i)
  case Nil
  then show ?case by simp
next
  case (Cons b bs)
  then show ?case by (cases i) auto
qed

lemma count_list_add_buckets: "count_list (add_buckets index bs) (0::uint8) = count_list bs 0"
  by (simp add: add_buckets_eq count_list_0_iff)


lemma done_msg_None: "map_of ps (Partition msg) = None \<Longrightarrow> done_msg ps msg = Return ps"
  by (simp add: done_msg_def)

lemma premessage_None: "map_of ps (Partition msg) = None \<Longrightarrow> premessage ps msg = None"
  by (simp add: premessage_def)

lemma done_msg_frame: "k \<noteq> Partition msg \<Longrightarrow> map_of (final (done_msg ps msg)) k = map_of ps k"
proof (cases "map_of ps (Partition msg)")
  case None
  then show ?thesis by (simp add: done_msg_None)
next
  case (Some q)
  assume "k \<noteq> Partition msg"
  with Some show ?thesis
    by (cases "advance (q\<lparr>buckets := (buckets q)[0 := buckets q ! 0 - 1]\<rparr>)")
       (simp_all add: done_msg_def Let_def update_conv')
qed

lemma done_msg_partition:
  assumes q: "map_of ps (Partition msg) = Some q"
    and small: "sint (offset q) + 64 * int (count_list (buckets q) 0) + 64 < 2 ^ 63"
  shows "\<exists>q'. map_of (final (done_msg ps msg)) = (map_of ps)(Partition msg \<mapsto> q') \<and>
           sint (offset q) \<le> sint (offset q') \<and>
           sint (offset q') + 64 * int (count_list (buckets q') 0)
             \<le> sint (offset q) + 64 * int (count_list (buckets q) 0) + 64"
proof -
  let ?index = "nat (sint (signed_drop_bit 6 (oldest q - Offset msg)))"
  let ?q1 = "q\<lparr>buckets := (buckets q)[?index := buckets q ! ?index - 1]\<rparr>"
  have same: "map_of ps = (map_of ps)(Partition msg \<mapsto> q)"
    using q by (simp add: map_upd_triv)
  show ?thesis
  proof (cases "oldest q - Offset msg <s 0 \<or> ?index \<ge> length (buckets q)")
    case True
    then have "done_msg ps msg = Return ps"
      using q by (auto simp: done_msg_def Let_def)
    with same show ?thesis by (intro exI [of _ q]) simp
  next
    case False
    then have idx: "?index < length (buckets q)" by simp
    have cnt: "int (count_list (buckets ?q1) 0) \<le> int (count_list (buckets q) 0) + 1"
      using count_list_update_le [OF idx, of "buckets q ! ?index - 1" 0] by simp
    show ?thesis
    proof (cases "?index = 0")
      case False
      with \<open>\<not> (_ \<or> _)\<close> q have "done_msg ps msg = Return (AList.update (Partition msg) ?q1 ps)"
        by (simp add: done_msg_def Let_def)
      with cnt show ?thesis
        by (intro exI [of _ ?q1]) (simp add: update_conv')
    next
      case True
      from cnt small
      have "sint (offset ?q1) + 64 * int (count_list (buckets ?q1) 0) < 2 ^ 63" by simp
      note adv = advance_potential [OF this]
      have "final (done_msg ps msg) = AList.update (Partition msg) (final (advance ?q1)) ps"
        using True \<open>\<not> (_ \<or> _)\<close> q
        by (cases "advance ?q1") (simp_all add: done_msg_def Let_def)
      with adv cnt show ?thesis
        by (intro exI [of _ "final (advance ?q1)"]) (simp add: update_conv')
    qed
  qed
qed

lemma premessage_partition:
  assumes q: "map_of ps (Partition msg) = Some q"
  shows "\<exists>q'. map_of (case premessage ps msg of None \<Rightarrow> ps | Some ps' \<Rightarrow> ps')
                = (map_of ps)(Partition msg \<mapsto> q') \<and>
           offset q' = offset q \<and> count_list (buckets q') 0 = count_list (buckets q) 0"
proof (cases "oldest q - Offset msg <s 0")
  case True
  with q have "premessage ps msg = None" by (simp add: premessage_def)
  with q show ?thesis by (intro exI [of _ q]) (simp add: map_upd_triv)
next
  case False
  let ?q' = "q\<lparr>buckets := add_buckets (nat (sint (signed_drop_bit 6 (oldest q - Offset msg)))) (buckets q)\<rparr>"
  from False q have "premessage ps msg = Some (AList.update (Partition msg) ?q' ps)"
    by (simp add: premessage_def Let_def)
  then show ?thesis
    by (intro exI [of _ ?q']) (simp add: update_conv' count_list_add_buckets)
qed

lemma track_step:
  assumes p: "map_of ps k = Some p"
    and small: "sint (offset p) + 64 * int (count_list (buckets p) 0) + 64 < 2 ^ 63"
  shows "\<exists>p'. map_of (final (track ps e)) k = Some p' \<and>
           sint (offset p) \<le> sint (offset p') \<and>
           sint (offset p') + 64 * int (count_list (buckets p') 0)
             \<le> sint (offset p) + 64 * int (count_list (buckets p) 0) + 64"
proof (cases e)
  case (Delivery msg)
  have fin: "final (track ps e) = (case premessage ps msg of None \<Rightarrow> ps | Some ps' \<Rightarrow> ps')"
    using Delivery by (simp split: option.splits)
  show ?thesis
  proof (cases "Partition msg = k")
    case True
    from premessage_partition [of ps msg p] p True fin show ?thesis by auto
  next
    case False
    show ?thesis
    proof (cases "map_of ps (Partition msg)")
      case None
      with fin p show ?thesis by (simp add: premessage_None)
    next
      case (Some q)
      from premessage_partition [OF Some] fin False p show ?thesis by auto
    qed
  qed
next
  case (Ack msg)
  then have fin: "final (track ps e) = final (done_msg ps msg)" by simp
  show ?thesis
  proof (cases "Partition msg = k")
    case True
    from done_msg_partition [of ps msg p] p small True fin show ?thesis by auto
  next
    case False
    show ?thesis
    proof (cases "map_of ps (Partition msg)")
      case None
      with fin p show ?thesis by (simp add: done_msg_None)
    next
      case (Some q)
      from done_msg_frame [OF False [symmetric], of ps] fin p show ?thesis by simp
    qed
  qed
qed


lemma track_all_potential:
  assumes "map_of ps k = Some p"
    and "sint (offset p) + 64 * int (count_list (buckets p) 0) + 64 * int (length es) < 2 ^ 63"
  shows "\<exists>p'. map_of (final (track_all ps es)) k = Some p' \<and>
           sint (offset p) \<le> sint (offset p') \<and>
           sint (offset p') + 64 * int (count_list (buckets p') 0)
             \<le> sint (offset p) + 64 * int (count_list (buckets p) 0) + 64 * int (length es)"
  using assms
proof (induction es arbitrary: ps p)
  case Nil
  then show ?case by simp
next
  case (Cons e es)
  from Cons.prems(2)
  have "sint (offset p) + 64 * int (count_list (buckets p) 0) + 64 < 2 ^ 63" by simp
  from track_step [OF Cons.prems(1) this, of e]
  obtain p1 where p1: "map_of (final (track ps e)) k = Some p1"
    and mono1: "sint (offset p) \<le> sint (offset p1)"
    and pot1: "sint (offset p1) + 64 * int (count_list (buckets p1) 0)
                 \<le> sint (offset p) + 64 * int (count_list (buckets p) 0) + 64"
    by blast
  show ?case
  proof (cases "track ps e")
    case (Panic x ps1)
    with p1 mono1 pot1 show ?thesis by (intro exI [of _ p1]) simp
  next
    case (Return ps1)
    with p1 have k1: "map_of ps1 k = Some p1" by simp
    from pot1 Cons.prems(2)
    have "sint (offset p1) + 64 * int (count_list (buckets p1) 0) + 64 * int (length es) < 2 ^ 63"
      by simp
    from Cons.IH [OF k1 this]
    obtain p2 where "map_of (final (track_all ps1 es)) k = Some p2"
      and "sint (offset p1) \<le> sint (offset p2)"
      and "sint (offset p2) + 64 * int (count_list (buckets p2) 0)
             \<le> sint (offset p1) + 64 * int (count_list (buckets p1) 0) + 64 * int (length es)"
      by blast
    with Return mono1 pot1 show ?thesis by (intro exI [of _ p2]) simp
  qed
qed

lemma track_all_append:
  "track_all ps (es1 @ es2) =
     (case track_all ps es1 of Return ps' \<Rightarrow> track_all ps' es2 | Panic x ps' \<Rightarrow> Panic x ps')"
  by (induction es1 arbitrary: ps) (simp_all split: result.splits)

lemma remove_loop_single:
  "map_of ps k = Some p \<Longrightarrow> remove_loop [k] ps [] = (AList.delete k ps, [(k, offset p)])"
  by simp

text \<open>
  C6. For a partition \<open>k\<close> that the worker owns, across every sequence of deliveries and
  acknowledgements (in one generation: no assignment replaces the record) the offset
  field does not decrease: the offset after a sequence \<open>es1\<close> is at most the offset after
  any continuation \<open>es1 @ es2\<close>, and at least the offset before. The offset that \<open>remove\<close>
  commits for \<open>k\<close> is the offset field, so what would be committed after \<open>es1 @ es2\<close> is not
  below what would be committed after \<open>es1\<close>. A panic ends a sequence and leaves the state
  it reached. The side condition keeps the offsets away from the upper end of \<open>int64\<close>,
  where \<open>+= 64\<close> wraps: 64 for every bucket that is 0 at the start and for every event.
\<close>

theorem committable_offset_monotone:
  assumes "map_of ps k = Some p"
    and "sint (offset p) + 64 * (int (count_list (buckets p) 0) + int (length (es1 @ es2))) < 2 ^ 63"
  shows "\<exists>p1 p2.
           map_of (final (track_all ps es1)) k = Some p1 \<and>
           map_of (final (track_all ps (es1 @ es2))) k = Some p2 \<and>
           offset p \<le>s offset p1 \<and> offset p1 \<le>s offset p2 \<and>
           snd (remove_loop [k] (final (track_all ps es1)) []) = [(k, offset p1)] \<and>
           snd (remove_loop [k] (final (track_all ps (es1 @ es2))) []) = [(k, offset p2)]"
proof -
  from assms(2)
  have b1: "sint (offset p) + 64 * int (count_list (buckets p) 0) + 64 * int (length es1) < 2 ^ 63"
    by simp
  from track_all_potential [OF assms(1) b1]
  obtain p1 where p1: "map_of (final (track_all ps es1)) k = Some p1"
    and mono1: "sint (offset p) \<le> sint (offset p1)"
    and pot1: "sint (offset p1) + 64 * int (count_list (buckets p1) 0)
                 \<le> sint (offset p) + 64 * int (count_list (buckets p) 0) + 64 * int (length es1)"
    by blast
  have "\<exists>p2. map_of (final (track_all ps (es1 @ es2))) k = Some p2 \<and>
          sint (offset p1) \<le> sint (offset p2)"
  proof (cases "track_all ps es1")
    case (Panic x ps1)
    with p1 show ?thesis by (simp add: track_all_append)
  next
    case (Return ps1)
    with p1 have k1: "map_of ps1 k = Some p1" by simp
    from pot1 assms(2)
    have "sint (offset p1) + 64 * int (count_list (buckets p1) 0) + 64 * int (length es2) < 2 ^ 63"
      by simp
    from track_all_potential [OF k1 this] Return show ?thesis
      by (auto simp: track_all_append)
  qed
  then obtain p2 where p2: "map_of (final (track_all ps (es1 @ es2))) k = Some p2"
    and mono2: "sint (offset p1) \<le> sint (offset p2)"
    by blast
  from p1 p2 mono1 mono2 show ?thesis
    by (simp add: word_sle_eq)
qed

text \<open>
  An instance: partition 0 starts at offset 127; the messages at offsets 127 down to 63
  are tracked in two buckets, and the acknowledgements of 64 to 127 complete the first
  one. After the first 36 acknowledgements the offset is 127, after all of them 191.
\<close>

lemma committable_offset_advances:
  "final (track_all [(0, \<lparr>offset = 127, buckets = [], oldest = 127\<rparr>)]
        (deliveries 0 (rev [63..<128]) @ acks 0 [64..<100]))
     = [(0, \<lparr>offset = 127, buckets = [28, 64], oldest = 127\<rparr>)]
   \<and> final (track_all [(0, \<lparr>offset = 127, buckets = [], oldest = 127\<rparr>)]
        ((deliveries 0 (rev [63..<128]) @ acks 0 [64..<100]) @ acks 0 [100..<128]))
     = [(0, \<lparr>offset = 191, buckets = [64], oldest = 191\<rparr>)]"
  by code_simp

theorem committable_offset_monotone_witness:
  "map_of [(0 :: int32, \<lparr>offset = 127, buckets = [], oldest = 127\<rparr>)] 0
     = Some \<lparr>offset = 127, buckets = [], oldest = 127\<rparr>
   \<and> sint (offset \<lparr>offset = 127, buckets = [], oldest = 127\<rparr>)
       + 64 * (int (count_list (buckets \<lparr>offset = 127, buckets = [], oldest = 127\<rparr>) 0)
               + int (length ((deliveries 0 (rev [63..<128]) @ acks 0 [64..<100]) @ acks 0 [100..<128])))
       < 2 ^ 63
   \<and> (\<exists>p1 p2.
         map_of (final (track_all [(0, \<lparr>offset = 127, buckets = [], oldest = 127\<rparr>)]
                   (deliveries 0 (rev [63..<128]) @ acks 0 [64..<100]))) 0 = Some p1 \<and>
         map_of (final (track_all [(0, \<lparr>offset = 127, buckets = [], oldest = 127\<rparr>)]
                   ((deliveries 0 (rev [63..<128]) @ acks 0 [64..<100]) @ acks 0 [100..<128]))) 0
           = Some p2 \<and>
         offset \<lparr>offset = 127, buckets = [], oldest = 127\<rparr> \<le>s offset p1 \<and>
         offset p1 \<le>s offset p2 \<and>
         snd (remove_loop [0]
                (final (track_all [(0, \<lparr>offset = 127, buckets = [], oldest = 127\<rparr>)]
                   (deliveries 0 (rev [63..<128]) @ acks 0 [64..<100]))) [])
           = [(0, offset p1)] \<and>
         snd (remove_loop [0]
                (final (track_all [(0, \<lparr>offset = 127, buckets = [], oldest = 127\<rparr>)]
                   ((deliveries 0 (rev [63..<128]) @ acks 0 [64..<100]) @ acks 0 [100..<128]))) [])
           = [(0, offset p2)])"
proof -
  let ?p = "\<lparr>offset = 127, buckets = [], oldest = 127\<rparr>"
  let ?ps = "[(0, ?p)] :: partitions"
  let ?es1 = "deliveries 0 (rev [63..<128]) @ acks 0 [64..<100]"
  let ?es2 = "acks 0 [100..<128]"
  have k: "map_of ?ps 0 = Some ?p" by simp
  have b: "sint (offset ?p) + 64 * (int (count_list (buckets ?p) 0) + int (length (?es1 @ ?es2)))
             < 2 ^ 63"
    by (simp add: deliveries_def acks_def)
  show ?thesis
    by (rule conjI [OF k conjI [OF b committable_offset_monotone [OF k b]]])
qed

text \<open>
  The same in the loop of the worker, for the events of one generation: while the worker
  runs the offset field of an owned partition is not below what it was, and when the
  worker panics the deferred function sends a commit request with an offset for the
  partition that is not below it either.
\<close>

lemma remove_loop_keeps: "set bl \<subseteq> set (snd (remove_loop ks ps bl))"
proof (induction ks arbitrary: ps bl)
  case Nil
  then show ?case by simp
next
  case (Cons k ks)
  show ?case
  proof (cases "map_of ps k")
    case None
    with Cons show ?thesis by simp
  next
    case (Some q)
    have "set bl \<subseteq> set (bl @ [(k, offset q)])" by auto
    also have "\<dots> \<subseteq> set (snd (remove_loop ks (AList.delete k ps) (bl @ [(k, offset q)])))"
      by (rule Cons.IH)
    finally show ?thesis using Some by simp
  qed
qed

lemma remove_loop_commits:
  "k \<in> set ks \<Longrightarrow> map_of ps k = Some p \<Longrightarrow> (k, offset p) \<in> set (snd (remove_loop ks ps bl))"
proof (induction ks arbitrary: ps bl)
  case Nil
  then show ?case by simp
next
  case (Cons k' ks)
  show ?case
  proof (cases "k' = k")
    case True
    have "(k, offset p) \<in> set (bl @ [(k, offset p)])" by simp
    with remove_loop_keeps [of "bl @ [(k, offset p)]" ks "AList.delete k ps"]
    show ?thesis using True Cons.prems(2) by auto
  next
    case False
    with Cons.prems(1) have in_ks: "k \<in> set ks" by simp
    show ?thesis
    proof (cases "map_of ps k'")
      case None
      with Cons.IH [OF in_ks Cons.prems(2)] show ?thesis by simp
    next
      case (Some q)
      from False Cons.prems(2) have "map_of (AList.delete k' ps) k = Some p"
        by (simp add: delete_conv')
      from Cons.IH [OF in_ks this] Some show ?thesis by simp
    qed
  qed
qed

lemma deferred_commits:
  assumes "map_of (partitions s) k = Some p" and "deferred s = (s', acts)"
  shows "\<exists>c r. acts = [CommitOffset c r] \<and> (k, offset p) \<in> set (blocks r)"
proof -
  from assms(1) have ne: "partitions s \<noteq> []" by auto
  from assms(1) have "k \<in> set (map fst (partitions s))"
    by (metis map_of_eq_None_iff option.distinct(1) set_map)
  from remove_loop_commits [OF this assms(1), of "[]"] assms(2) ne show ?thesis
    by (auto simp: deferred_def remove_def split: prod.splits)
qed

lemma run_offset_monotone:
  assumes "map_of (partitions s) k = Some p"
    and "list_all in_generation es"
    and "sint (offset p) + 64 * int (count_list (buckets p) 0) + 64 * int (length es) < 2 ^ 63"
    and "run s es = Some (c, s', acts)"
  shows "(c = Running \<and> (\<exists>p'. map_of (partitions s') k = Some p' \<and> offset p \<le>s offset p'))
       \<or> (c \<noteq> Running \<and>
           (\<exists>x r off. CommitOffset x r \<in> set acts \<and> (k, off) \<in> set (blocks r) \<and> offset p \<le>s off))"
  using assms
proof (induction es arbitrary: s p acts)
  case Nil
  then show ?case by (simp add: word_sle_eq)
next
  case (Cons e es)
  let ?Q = "\<lambda>q acts.
    (c = Running \<and> (\<exists>p'. map_of (partitions s') k = Some p' \<and> offset q \<le>s offset p'))
    \<or> (c \<noteq> Running \<and>
        (\<exists>x r off. CommitOffset x r \<in> set acts \<and> (k, off) \<in> set (blocks r) \<and> offset q \<le>s off))"
  have weaken: "?Q p acts1" if "sint (offset p) \<le> sint (offset q)" and "?Q q acts1" for q acts1
  proof (cases "c = Running")
    case True
    with that(2) obtain p' where "map_of (partitions s') k = Some p'" and "offset q \<le>s offset p'"
      by auto
    with that(1) True show ?thesis by (auto simp: word_sle_eq)
  next
    case False
    with that(2) obtain x r off where "CommitOffset x r \<in> set acts1"
      and "(k, off) \<in> set (blocks r)" and "offset q \<le>s off"
      by auto
    with that(1) have "CommitOffset x r \<in> set acts1 \<and> (k, off) \<in> set (blocks r)
        \<and> offset p \<le>s off"
      by (simp add: word_sle_eq)
    with False show ?thesis by blast
  qed
  from Cons.prems(2) have gen: "list_all in_generation es" by simp
  from Cons.prems(3)
  have small: "sint (offset p) + 64 * int (count_list (buckets p) 0) + 64 < 2 ^ 63"
    and rest: "sint (offset p) + 64 * int (count_list (buckets p) 0) + 64 * int (length es) < 2 ^ 63"
    by simp_all
  show ?case
  proof (cases e)
    case (Assignment a f)
    with Cons.prems(2) show ?thesis by simp
  next
    case Received
    show ?thesis
    proof (cases "delivering s")
      case None
      with Received Cons.prems(4) show ?thesis by simp
    next
      case (Some m)
      with Received Cons.prems(4) obtain acts1 where
        r: "run s es = Some (c, s', acts1)" and a: "acts = [Deliver m] @ acts1"
        by (auto split: option.splits)
      from Cons.IH [OF Cons.prems(1) gen rest r] a show ?thesis by simp
    qed
  next
    case (Premessage msg)
    from track_step [OF Cons.prems(1) small, of "Delivery msg"]
    obtain p1 where p1: "map_of (case premessage (partitions s) msg of None \<Rightarrow> partitions s | Some ps' \<Rightarrow> ps') k = Some p1"
      and m1: "sint (offset p) \<le> sint (offset p1)"
      and pot1: "sint (offset p1) + 64 * int (count_list (buckets p1) 0)
                 \<le> sint (offset p) + 64 * int (count_list (buckets p) 0) + 64"
      by (auto split: option.splits)
    from pot1 Cons.prems(3)
    have b1: "sint (offset p1) + 64 * int (count_list (buckets p1) 0) + 64 * int (length es) < 2 ^ 63"
      by simp
    show ?thesis
    proof (cases "delivering s")
      case (Some m)
      with Premessage Cons.prems(4) show ?thesis by simp
    next
      case None
      show ?thesis
      proof (cases "premessage (partitions s) msg")
        case pn: None
        with None Premessage Cons.prems(4) have r: "run s es = Some (c, s', acts)"
          by (auto split: option.splits)
        from pn p1 have "map_of (partitions s) k = Some p1" by simp
        from weaken [OF m1 Cons.IH [OF this gen b1 r]] show ?thesis .
      next
        case (Some ps1)
        with None Premessage Cons.prems(4)
        have r: "run (s\<lparr>partitions := ps1, delivering := Some msg\<rparr>) es = Some (c, s', acts)"
          by (auto split: option.splits)
        from Some p1 have "map_of (partitions (s\<lparr>partitions := ps1, delivering := Some msg\<rparr>)) k = Some p1"
          by simp
        from weaken [OF m1 Cons.IH [OF this gen b1 r]] show ?thesis .
      qed
    qed
  next
    case (Done msg)
    from track_step [OF Cons.prems(1) small, of "Ack msg"]
    obtain p1 where p1: "map_of (final (done_msg (partitions s) msg)) k = Some p1"
      and m1: "sint (offset p) \<le> sint (offset p1)"
      and pot1: "sint (offset p1) + 64 * int (count_list (buckets p1) 0)
                 \<le> sint (offset p) + 64 * int (count_list (buckets p) 0) + 64"
      by auto
    from pot1 Cons.prems(3)
    have b1: "sint (offset p1) + 64 * int (count_list (buckets p1) 0) + 64 * int (length es) < 2 ^ 63"
      by simp
    show ?thesis
    proof (cases "done_msg (partitions s) msg")
      case (Return ps1)
      with Done Cons.prems(4)
      have r: "run (s\<lparr>partitions := ps1\<rparr>) es = Some (c, s', acts)"
        by (auto split: option.splits)
      from Return p1 have "map_of (partitions (s\<lparr>partitions := ps1\<rparr>)) k = Some p1" by simp
      from weaken [OF m1 Cons.IH [OF this gen b1 r]] show ?thesis .
    next
      case (Panic x ps1)
      obtain s1 acts1 where d: "deferred (s\<lparr>partitions := ps1\<rparr>) = (s1, acts1)"
        by (cases "deferred (s\<lparr>partitions := ps1\<rparr>)")
      from Panic p1 have "map_of (partitions (s\<lparr>partitions := ps1\<rparr>)) k = Some p1" by simp
      from deferred_commits [OF this d]
      obtain x' r where acts1: "acts1 = [CommitOffset x' r]" and blk: "(k, offset p1) \<in> set (blocks r)"
        by blast
      from Panic Done d Cons.prems(4) have "c = Panicked x" and "acts = acts1"
        by (auto split: if_splits)
      with acts1 blk m1 show ?thesis
        by (auto simp: word_sle_eq)
    qed
  qed
qed

section \<open>The difference of owned and assigned partitions (claim C8)\<close>

text \<open>
  On two lists that are strictly increasing in the signed order the merge loop returns
  the elements of the second that are not in the first, and the elements of the first
  that are not in the second, in their order.
\<close>

lemma sless_antisym_eq: "\<not> x <s y \<Longrightarrow> \<not> y <s x \<Longrightarrow> x = y" for x y :: "'a::len word"
  by (simp add: word_sless_alt not_less) (metis antisym signed_word_eqI)

lemma sless_asym': "x <s y \<Longrightarrow> \<not> y <s x" for x y :: "'a::len word"
  by (simp add: word_sless_alt)

lemma sless_irrefl': "\<not> x <s x" for x :: "'a::len word"
  by (simp add: word_sless_alt)

lemma sless_trans': "x <s y \<Longrightarrow> y <s z \<Longrightarrow> x <s z" for x y z :: "'a::len word"
  by (simp add: word_sless_alt)

lemma difference_loop_filter:
  "sorted_wrt (<s) os \<Longrightarrow> sorted_wrt (<s) ns \<Longrightarrow>
   difference_loop os ns added removed =
     (added @ filter (\<lambda>y. y \<notin> set os) ns, removed @ filter (\<lambda>x. x \<notin> set ns) os)"
proof (induction os ns added removed rule: difference_loop.induct)
  case (1 x os y ns added removed)
  from "1.prems" have xs: "\<forall>z\<in>set os. x <s z" and so: "sorted_wrt (<s) os"
    and ys: "\<forall>z\<in>set ns. y <s z" and sn: "sorted_wrt (<s) ns"
    by simp_all
  show ?case
  proof (cases "x <s y")
    case True
    then have x_notin: "x \<notin> set (y # ns)"
      using ys by (auto dest: sless_trans' simp: sless_irrefl')
    have y_notin: "y \<noteq> x" using True by (auto simp: sless_irrefl')
    have "filter (\<lambda>z. z \<notin> set (x # os)) (y # ns) = filter (\<lambda>z. z \<notin> set os) (y # ns)"
      using x_notin by (intro filter_cong) auto
    with True x_notin "1.IH"(1) [OF True so "1.prems"(2)] show ?thesis by simp
  next
    case False
    show ?thesis
    proof (cases "y <s x")
      case True
      then have y_notin: "y \<notin> set (x # os)"
        using xs by (auto dest: sless_trans' simp: sless_irrefl')
      have "filter (\<lambda>z. z \<notin> set (y # ns)) (x # os) = filter (\<lambda>z. z \<notin> set ns) (x # os)"
        using y_notin by (intro filter_cong) auto
      with False True y_notin "1.IH"(2) [OF False True "1.prems"(1) sn] show ?thesis by simp
    next
      case nless: False
      with False have eq: "x = y" by (rule sless_antisym_eq)
      have x_os: "x \<notin> set os" using xs by (auto simp: sless_irrefl')
      have y_ns: "y \<notin> set ns" using ys by (auto simp: sless_irrefl')
      have f1: "filter (\<lambda>z. z \<notin> set (x # os)) (y # ns) = filter (\<lambda>z. z \<notin> set os) ns"
        using eq y_ns by (auto intro: filter_cong)
      have f2: "filter (\<lambda>z. z \<notin> set (y # ns)) (x # os) = filter (\<lambda>z. z \<notin> set ns) os"
        using eq x_os by (auto intro: filter_cong)
      from False nless "1.IH"(3) [OF False nless so sn] f1 f2 show ?thesis by simp
    qed
  qed
qed simp_all

lemma sorted_wrt_sless_sort_key:
  "distinct xs \<Longrightarrow> sorted_wrt (<s) (sort_key sint xs)" for xs :: "'a::len word list"
proof -
  assume d: "distinct xs"
  have "sorted (map sint (sort_key sint xs))" by (rule sorted_sort_key)
  moreover have "distinct (map sint (sort_key sint xs))"
    using d by (auto simp: distinct_map inj_on_def intro: signed_word_eqI)
  ultimately have "sorted_wrt (<) (map sint (sort_key sint xs))"
    by (simp add: strict_sorted_iff)
  then show ?thesis
    by (simp add: sorted_wrt_map word_sless_alt [abs_def])
qed

text \<open>
  C8 as stated: for every owned set and every assigned list the two results are sorted
  and disjoint, and together they are the symmetric difference. The assigned list is a
  slice and may name a partition twice; the merge then steps over one occurrence only.
  With partition 1 owned and the assigned list \<open>[1, 1]\<close>, partition 1 is returned as
  added, though it is in both.
\<close>

theorem difference_repeated_counterexample:
  "difference [(1, \<lparr>offset = 0, buckets = [], oldest = 0\<rparr>)] [1, 1] = ([1], [])
   \<and> set [1 :: int32] \<union> set []
       \<noteq> (set (map fst [(1 :: int32, \<lparr>offset = 0, buckets = [], oldest = 0\<rparr>)]) - set [1, 1])
         \<union> (set [1, 1] - set (map fst [(1 :: int32, \<lparr>offset = 0, buckets = [], oldest = 0\<rparr>)]))"
proof -
  have "difference [(1, \<lparr>offset = 0, buckets = [], oldest = 0\<rparr>)] [1, 1] = ([1], [])"
    by code_simp
  then show ?thesis by simp
qed

text \<open>
  C8, amended: for every owned map (its keys are distinct) and every assigned list
  without a repeated element, \<open>added\<close> and \<open>removed\<close> are strictly increasing in the signed
  order and disjoint, \<open>added\<close> holds the assigned partitions that are not owned, \<open>removed\<close>
  the owned ones that are not assigned, together the symmetric difference; and when the
  assigned list names exactly the owned partitions both are empty.
\<close>

theorem difference_distinct:
  assumes "distinct (map fst old)" and "distinct next"
    and "difference old next = (added, removed)"
  shows "sorted_wrt (<s) added \<and> sorted_wrt (<s) removed \<and>
         set added \<inter> set removed = {} \<and>
         set added = set next - set (map fst old) \<and>
         set removed = set (map fst old) - set next \<and>
         set added \<union> set removed
           = (set (map fst old) - set next) \<union> (set next - set (map fst old)) \<and>
         (set next = set (map fst old) \<longrightarrow> added = [] \<and> removed = [])"
proof -
  let ?o = "sort_key sint (map fst old)" and ?n = "sort_key sint next"
  have so: "sorted_wrt (<s) ?o" and sn: "sorted_wrt (<s) ?n"
    using assms(1,2) by (simp_all add: sorted_wrt_sless_sort_key)
  from assms(3) have a: "added = filter (\<lambda>y. y \<notin> set ?o) ?n"
    and r: "removed = filter (\<lambda>x. x \<notin> set ?n) ?o"
    by (simp_all add: difference_def difference_loop_filter [OF so sn])
  have "sorted_wrt (<s) added" "sorted_wrt (<s) removed"
    using so sn by (simp_all add: a r sorted_wrt_filter)
  moreover have sa: "set added = set next - set (map fst old)"
    and sr: "set removed = set (map fst old) - set next"
    by (auto simp: a r)
  moreover have "set next = set (map fst old) \<longrightarrow> added = [] \<and> removed = []"
    by (auto simp: a r filter_empty_conv)
  ultimately show ?thesis by auto
qed

theorem difference_distinct_witness:
  "distinct (map fst [(5 :: int32, \<lparr>offset = 0, buckets = [], oldest = 0\<rparr>),
                      (- 1, \<lparr>offset = 0, buckets = [], oldest = 0\<rparr>),
                      (3, \<lparr>offset = 0, buckets = [], oldest = 0\<rparr>)])
   \<and> distinct [7, 3, 2 :: int32]
   \<and> difference [(5, \<lparr>offset = 0, buckets = [], oldest = 0\<rparr>),
                 (- 1, \<lparr>offset = 0, buckets = [], oldest = 0\<rparr>),
                 (3, \<lparr>offset = 0, buckets = [], oldest = 0\<rparr>)] [7, 3, 2] = ([2, 7], [- 1, 5])
   \<and> sorted_wrt (<s) [2, 7 :: int32] \<and> sorted_wrt (<s) [- 1, 5 :: int32]
   \<and> set [2, 7 :: int32] \<inter> set [- 1, 5] = {}"
proof -
  let ?z = "\<lparr>offset = 0, buckets = [], oldest = 0\<rparr>"
  let ?old = "[(5, ?z), (- 1, ?z), (3, ?z)] :: partitions"
  have d1: "distinct (map fst ?old)" by simp
  have d2: "distinct [7, 3, 2 :: int32]" by simp
  have e: "difference ?old [7, 3, 2] = ([2, 7], [- 1, 5])" by code_simp
  from difference_distinct [OF d1 d2 e] d1 d2 e show ?thesis by blast
qed

section \<open>Round-robin assignment (claim C5)\<close>

text \<open>
  What the partitioner hands out is decoded by \<open>ParseSync\<close> as it is: every member
  assignment it builds has version 1.
\<close>

lemma RoundRobin_round_trip:
  assumes "RoundRobin_Partition get_members client = Inr ga"
    and "map_of ga member = Some ma"
  shows "RoundRobin_ParseSync (Inr ma) = Inr (ma_Topics ma)"
proof -
  from assms(1) obtain asg
    where ga: "ga = map (\<lambda>(m, topics). (m, \<lparr>ma_Version = 1, ma_Topics = topics\<rparr>)) asg"
    by (auto simp: RoundRobin_Partition_def split: sum.splits)
  from assms(2) have "(member, ma) \<in> set ga" by (rule map_of_SomeD)
  with ga have "ma_Version ma = 1" by auto
  then show ?thesis
    by (simp add: RoundRobin_ParseSync_def)
qed

text \<open>
  The loop over the members of a topic gives every member one partition: the member at
  index \<open>k\<close> gets the partition at index \<open>k mod len(partitions)\<close> and no other, however
  many partitions there are.
\<close>

lemma assign_members_other:
  "m \<notin> set ms \<Longrightarrow> map_of (assign_members t ps i ms asg) m = map_of asg m"
  by (induction ms arbitrary: i asg) (auto simp: Let_def update_conv')

lemma assign_members_one_each:
  assumes "distinct ms" and "\<forall>m\<in>set ms. map_of asg m = None" and "k < length ms"
  shows "map_of (assign_members t ps i ms asg) (ms ! k) = Some [(t, [ps ! ((i + k) mod length ps)])]"
  using assms
proof (induction ms arbitrary: i asg k)
  case Nil
  then show ?case by simp
next
  case (Cons m ms)
  let ?asg = "AList.update m [(t, [ps ! (i mod length ps)])] asg"
  from Cons.prems(2) have step: "assign_members t ps i (m # ms) asg = assign_members t ps (Suc i) ms ?asg"
    by (simp add: Let_def)
  show ?case
  proof (cases k)
    case 0
    from Cons.prems(1) have "m \<notin> set ms" by simp
    then have "map_of (assign_members t ps (Suc i) ms ?asg) m = map_of ?asg m"
      by (rule assign_members_other)
    with 0 show ?thesis
      unfolding step by (simp add: update_conv')
  next
    case (Suc k')
    from Cons.prems(1) have d: "distinct ms" and "m \<notin> set ms" by simp_all
    with Cons.prems(2) have fresh: "\<forall>m'\<in>set ms. map_of ?asg m' = None"
      by (auto simp: update_conv')
    from Cons.prems(3) Suc have "k' < length ms" by simp
    from Cons.IH [OF d fresh this, of "Suc i"] Suc show ?thesis
      unfolding step by simp
  qed
qed

text \<open>
  C5. The claim: members and partitions are sorted, and with the members a and b and the
  partitions 0, 1, 2 member a is assigned \<open>[0, 2]\<close> and member b \<open>[1]\<close>. \<open>Partition\<close> is
  documented to assign the topic's partitions round-robin across the members requesting
  the topic, but its loop runs over the members and gives each one partition,
  \<open>partitions[i % len(partitions)]\<close>: a gets \<open>[0]\<close>, b gets \<open>[1]\<close> and partition 2 goes to
  no member. Nothing is sorted: when the member map is visited in the order b, a the
  partitions are exchanged. \<open>ParseSync\<close> returns to a what was assigned to it.
\<close>

theorem round_robin_leaves_partition_unassigned:
  "RoundRobin_Partition
       (Inr [(''a'', \<lparr>Version = 1, Topics = [''t'']\<rparr>), (''b'', \<lparr>Version = 1, Topics = [''t'']\<rparr>)])
       (\<lambda>t. Inr [0, 1, 2])
     = Inr [(''a'', \<lparr>ma_Version = 1, ma_Topics = [(''t'', [0])]\<rparr>),
            (''b'', \<lparr>ma_Version = 1, ma_Topics = [(''t'', [1])]\<rparr>)]
   \<and> RoundRobin_Partition
       (Inr [(''b'', \<lparr>Version = 1, Topics = [''t'']\<rparr>), (''a'', \<lparr>Version = 1, Topics = [''t'']\<rparr>)])
       (\<lambda>t. Inr [0, 1, 2])
     = Inr [(''b'', \<lparr>ma_Version = 1, ma_Topics = [(''t'', [0])]\<rparr>),
            (''a'', \<lparr>ma_Version = 1, ma_Topics = [(''t'', [1])]\<rparr>)]
   \<and> RoundRobin_ParseSync (Inr \<lparr>ma_Version = 1, ma_Topics = [(''t'', [0])]\<rparr>)
     = Inr [(''t'', [0])]"
  by (simp add: RoundRobin_Partition_def RoundRobin_ParseSync_def)

section \<open>The leader's pass of the join loop (claim C4)\<close>

text \<open>
  When the join response names this member as leader the partitioner is called and the
  pass ends: no sync request is sent, and the next pass starts after the pause.
\<close>

lemma leader_pass:
  assumes "Coordinator_response r = Inr coor"
    and "JoinGroup_response r = (Some jresp, None)"
    and "Err jresp = ErrNoError"
    and "LeaderId jresp = MemberId jresp"
  shows "\<exists>acts. join_pass s r
           = (Paused, s\<lparr>early_rc := False, cl_member_id := MemberId jresp, pause := False\<rparr>, acts)
         \<and> CallPartition \<in> set acts \<and> (\<forall>c q. CallSyncGroup c q \<notin> set acts)"
  using assms
  by (cases "Partition_result r")
     (auto simp: join_pass_def continue_join_loop_def Let_def)

text \<open>
  C4. The claim: the leader calls the partitioner, sends the SyncGroup request with the
  assignments, and rejoins without the pause of one second. In the code
  \<open>pause = true; continue join_loop\<close> follows the call of the partitioner whether it
  failed or not, before \<open>coor.SyncGroup\<close> is reached: for the client below, elected
  leader, the only requests are JoinGroup and the partitioner's call, and the client is
  then in the pause loop.
\<close>

theorem leader_sends_no_sync_and_pauses:
  "client_step JoinTop example_client
       (JoinPass (example_responses
          \<lparr>JoinGroup_response :=
             (Some \<lparr>Err = ErrNoError, GenerationId = 3, LeaderId = ''me'', MemberId = ''me''\<rparr>, None)\<rparr>))
     = Some (Paused, example_client,
             [CallCoordinator,
              CallJoinGroup 7 \<lparr>jreq_MemberId = ''me'', jreq_Topics = [''t'']\<rparr>,
              CallPartition])"
  by (simp add: example_client_def example_responses_def join_pass_def continue_join_loop_def)

section \<open>Transport errors (claim C7)\<close>

text \<open>
  C7 as stated: after a transport error of JoinGroup, SyncGroup or Heartbeat the client
  pauses for a second and then looks for the coordinator. In the code a failed JoinGroup
  leaves the join loop by \<open>break join_loop\<close> with \<open>pause\<close> unset: the coordinator is
  refreshed and the next pass starts at once.
\<close>

theorem join_transport_error_no_pause:
  "client_step JoinTop example_client
       (JoinPass (example_responses\<lparr>JoinGroup_response := (None, Some (Transport ''EOF''))\<rparr>))
     = Some (Refreshing, example_client,
             [CallCoordinator, CallJoinGroup 7 \<lparr>jreq_MemberId = ''me'', jreq_Topics = [''t'']\<rparr>])
   \<and> client_step Refreshing example_client (Refreshed None)
     = Some (JoinTop, example_client, [CallRefreshCoordinator])"
  by (simp add: example_client_def example_responses_def join_pass_def continue_join_loop_def
        break_join_loop_def)

text \<open>
  A failed SyncGroup is not part of the amended claim. Its test reads
  \<open>err != nil && sresp.Err == ...\<close> where the tests of JoinGroup and Heartbeat have
  \<open>||\<close>, and so reads the response that is nil when the request failed.
\<close>

lemma sync_transport_error_crashes:
  "client_step JoinTop example_client
       (JoinPass (example_responses\<lparr>SyncGroup_response := (None, Some (Transport ''EOF''))\<rparr>))
     = Some (Crashed NilDereference, example_client,
             [CallCoordinator, CallJoinGroup 7 \<lparr>jreq_MemberId = ''me'', jreq_Topics = [''t'']\<rparr>,
              CallSyncGroup 7 \<lparr>sreq_GenerationId = 3, sreq_MemberId = ''me'', GroupAssignments = []\<rparr>])"
  by (simp add: example_client_def example_responses_def join_pass_def sync_group_def)

text \<open>
  The variable \<open>pause\<close> is set only on the way to the pause loop or to the refresh:
  wherever \<open>client.run\<close> waits at the top of the join loop, in the pause loop or in the
  heartbeat loop, it is unset.
\<close>

lemma continue_join_loop_pause:
  "continue_join_loop s acts = (pl, s', acts') \<Longrightarrow> \<not> pause s'"
  by (auto simp: continue_join_loop_def split: if_splits)

lemma sync_group_pause:
  assumes "sync_group s r coor jresp acts = (pl, s', acts')" and "at_rest pl" and "\<not> pause s"
  shows "\<not> pause s'"
proof (cases "SyncGroup_response r")
  case (Pair sresp err)
  show ?thesis
  proof (cases sresp)
    case None
    with Pair assms show ?thesis by (auto simp: sync_group_def)
  next
    case (Some sr)
    with Pair assms show ?thesis
      by (cases err; cases "ParseSync_result r")
         (auto simp: sync_group_def Let_def break_join_loop_def
               split: if_splits dest: continue_join_loop_pause)
  qed
qed


lemma join_pass_pause:
  assumes "join_pass s r = (pl, s', acts')" and "at_rest pl" and "\<not> pause s"
  shows "\<not> pause s'"
proof (cases "Coordinator_response r")
  case (Inl err)
  with assms show ?thesis
    by (auto simp: join_pass_def break_join_loop_def split: if_splits)
next
  case (Inr coor)
  obtain jresp err where j: "JoinGroup_response r = (jresp, err)"
    by (cases "JoinGroup_response r")
  show ?thesis
  proof (cases err)
    case (Some e)
    with Inr j assms show ?thesis
      by (cases jresp) (auto simp: join_pass_def break_join_loop_def)
  next
    case None
    show ?thesis
    proof (cases jresp)
      case jn: None
      with None Inr j assms show ?thesis by (auto simp: join_pass_def)
    next
      case (Some jr)
      have sg: "\<not> pause s'"
        if "sync_group (s\<lparr>early_rc := False, cl_member_id := MemberId jr\<rparr>) r coor jr a
              = (pl, s', acts')" for a
        using sync_group_pause [OF that assms(2)] assms(3) by simp
      from Some None Inr j assms show ?thesis
        by (cases "Partition_result r")
           (auto simp: join_pass_def Let_def break_join_loop_def
                 split: if_splits dest: continue_join_loop_pause sg)
    qed
  qed
qed

lemma shutdown_not_at_rest: "shutdown s acts = (pl, s', acts') \<Longrightarrow> \<not> at_rest pl"
proof -
  have "\<not> at_rest (fst (shutdown_loop cs a))" for cs a
    by (induction cs a rule: shutdown_loop.induct) (auto split: option.splits)
  then show "shutdown s acts = (pl, s', acts') \<Longrightarrow> \<not> at_rest pl"
    by (auto simp: shutdown_def split: prod.splits) (metis fst_conv)
qed

lemma pause_cleared_at_rest:
  assumes "client_step pl s e = Some (pl', s', acts)"
    and "at_rest pl \<longrightarrow> \<not> pause s"
    and "at_rest pl'"
  shows "\<not> pause s'"
proof (cases pl)
  case JoinTop
  with assms show ?thesis by (cases e) (auto dest: join_pass_pause)
next
  case Paused
  with assms show ?thesis
    by (cases e)
       (auto simp: add_def rem_def split: option.splits prod.splits if_splits
             dest: shutdown_not_at_rest)
next
  case (Steady hb)
  with assms show ?thesis
    by (cases e)
       (auto simp: break_join_loop_def
             split: option.splits prod.splits if_splits
             dest: shutdown_not_at_rest continue_join_loop_pause)
next
  case Refreshing
  with assms show ?thesis
    by (cases e) (auto split: option.splits if_splits dest: continue_join_loop_pause)
next
  case Stopped
  with assms show ?thesis by (cases e) auto
next
  case (Crashed x)
  with assms show ?thesis by (cases e) auto
qed

text \<open>
  C7, amended: whenever a JoinGroup or a Heartbeat request fails with a transport error,
  the client leaves the join loop and refreshes the coordinator. When the refresh
  succeeds the next pass of the join loop starts without a pause. When the refresh fails
  the error is delivered and the client pauses for a second before the next pass; but
  while the first join has not been reported yet, the error of the refresh is returned
  to the caller of \<open>NewClient\<close> and \<open>client.run\<close> ends.
\<close>

theorem transport_error_refreshes:
  assumes "\<not> pause s"
  shows "(Coordinator_response r = Inr coor \<and> JoinGroup_response r = (jresp, Some err) \<longrightarrow>
            client_steps JoinTop s [JoinPass r, Refreshed None]
              = Some (JoinTop, s,
                      [CallCoordinator,
                       CallJoinGroup coor \<lparr>jreq_MemberId = cl_member_id s,
                                            jreq_Topics = map fst (consumers s)\<rparr>,
                       CallRefreshCoordinator]))
       \<and> client_steps (Steady hb) s [HeartbeatTimer (resp, Some err), Refreshed None]
           = Some (JoinTop, s, [CallHeartbeat (hb_coor hb), CallRefreshCoordinator])
       \<and> (\<not> early_rc s \<longrightarrow>
            client_steps (Steady hb) s [HeartbeatTimer (resp, Some err), Refreshed (Some err')]
              = Some (Paused, s,
                      [CallHeartbeat (hb_coor hb), CallRefreshCoordinator,
                       DeliverError (Error ''refreshing coordinating broker'' err')]))
       \<and> (\<not> early_rc s \<and> Coordinator_response r = Inr coor
            \<and> JoinGroup_response r = (jresp, Some err) \<longrightarrow>
            client_steps JoinTop s [JoinPass r, Refreshed (Some err')]
              = Some (Paused, s,
                      [CallCoordinator,
                       CallJoinGroup coor \<lparr>jreq_MemberId = cl_member_id s,
                                            jreq_Topics = map fst (consumers s)\<rparr>,
                       CallRefreshCoordinator,
                       DeliverError (Error ''refreshing coordinating broker'' err')]))
       \<and> (early_rc s \<and> Coordinator_response r = Inr coor
            \<and> JoinGroup_response r = (jresp, Some err) \<longrightarrow>
            client_steps JoinTop s [JoinPass r, Refreshed (Some err')]
              = Some (Stopped, s,
                      [CallCoordinator,
                       CallJoinGroup coor \<lparr>jreq_MemberId = cl_member_id s,
                                            jreq_Topics = map fst (consumers s)\<rparr>,
                       CallRefreshCoordinator,
                       EarlyReturn (Some (Error ''refreshing coordinating broker'' err'))]))
       \<and> (early_rc s \<longrightarrow>
            client_steps (Steady hb) s [HeartbeatTimer (resp, Some err), Refreshed (Some err')]
              = Some (Stopped, s,
                      [CallHeartbeat (hb_coor hb), CallRefreshCoordinator,
                       EarlyReturn (Some (Error ''refreshing coordinating broker'' err'))]))"
proof -
  have j: "join_pass s r
             = (Refreshing, s,
                [CallCoordinator,
                 CallJoinGroup coor \<lparr>jreq_MemberId = cl_member_id s,
                                      jreq_Topics = map fst (consumers s)\<rparr>])"
    if "Coordinator_response r = Inr coor" and "JoinGroup_response r = (jresp, Some err)"
    using that by (cases jresp) (simp_all add: join_pass_def break_join_loop_def)
  have c: "continue_join_loop s acts = (JoinTop, s, acts)" for acts
    using assms by (simp add: continue_join_loop_def)
  have p: "continue_join_loop (s\<lparr>pause := True\<rparr>) acts = (Paused, s, acts)" for acts
    using assms by (simp add: continue_join_loop_def)
  show ?thesis
    by (cases resp) (simp_all add: j c p break_join_loop_def)
qed

theorem transport_error_refreshes_witness:
  "\<not> pause example_client
   \<and> Coordinator_response (example_responses\<lparr>JoinGroup_response := (None, Some (Transport ''EOF''))\<rparr>)
       = Inr 7
   \<and> JoinGroup_response (example_responses\<lparr>JoinGroup_response := (None, Some (Transport ''EOF''))\<rparr>)
       = (None, Some (Transport ''EOF''))
   \<and> client_steps JoinTop example_client
         [JoinPass (example_responses\<lparr>JoinGroup_response := (None, Some (Transport ''EOF''))\<rparr>),
          Refreshed None]
       = Some (JoinTop, example_client,
               [CallCoordinator,
                CallJoinGroup 7 \<lparr>jreq_MemberId = ''me'', jreq_Topics = [''t'']\<rparr>,
                CallRefreshCoordinator])
   \<and> client_steps (Steady \<lparr>hb_generation_id = 3, hb_coor = 7, hb_member_id = ''me''\<rparr>)
         example_client [HeartbeatTimer (None, Some (Transport ''EOF'')), Refreshed None]
       = Some (JoinTop, example_client, [CallHeartbeat 7, CallRefreshCoordinator])
   \<and> \<not> early_rc example_client
   \<and> client_steps (Steady \<lparr>hb_generation_id = 3, hb_coor = 7, hb_member_id = ''me''\<rparr>)
         example_client
         [HeartbeatTimer (None, Some (Transport ''EOF'')), Refreshed (Some (Transport ''timeout''))]
       = Some (Paused, example_client,
               [CallHeartbeat 7, CallRefreshCoordinator,
                DeliverError (Error ''refreshing coordinating broker'' (Transport ''timeout''))])
   \<and> client_steps JoinTop example_client
         [JoinPass (example_responses\<lparr>JoinGroup_response := (None, Some (Transport ''EOF''))\<rparr>),
          Refreshed (Some (Transport ''timeout''))]
       = Some (Paused, example_client,
               [CallCoordinator,
                CallJoinGroup 7 \<lparr>jreq_MemberId = ''me'', jreq_Topics = [''t'']\<rparr>,
                CallRefreshCoordinator,
                DeliverError (Error ''refreshing coordinating broker'' (Transport ''timeout''))])
   \<and> \<not> pause (example_client\<lparr>early_rc := True\<rparr>)
   \<and> early_rc (example_client\<lparr>early_rc := True\<rparr>)
   \<and> client_steps JoinTop (example_client\<lparr>early_rc := True\<rparr>)
         [JoinPass (example_responses\<lparr>JoinGroup_response := (None, Some (Transport ''EOF''))\<rparr>),
          Refreshed (Some (Transport ''timeout''))]
       = Some (Stopped, example_client\<lparr>early_rc := True\<rparr>,
               [CallCoordinator,
                CallJoinGroup 7 \<lparr>jreq_MemberId = ''me'', jreq_Topics = [''t'']\<rparr>,
                CallRefreshCoordinator,
                EarlyReturn (Some (Error ''refreshing coordinating broker'' (Transport ''timeout'')))])
   \<and> client_steps (Steady \<lparr>hb_generation_id = 3, hb_coor = 7, hb_member_id = ''me''\<rparr>)
         (example_client\<lparr>early_rc := True\<rparr>)
         [HeartbeatTimer (None, Some (Transport ''EOF'')), Refreshed (Some (Transport ''timeout''))]
       = Some (Stopped, example_client\<lparr>early_rc := True\<rparr>,
               [CallHeartbeat 7, CallRefreshCoordinator,
                EarlyReturn (Some (Error ''refreshing coordinating broker'' (Transport ''timeout'')))])"
proof -
  let ?r = "example_responses\<lparr>JoinGroup_response := (None, Some (Transport ''EOF''))\<rparr>"
  let ?hb = "\<lparr>hb_generation_id = 3, hb_coor = 7, hb_member_id = ''me''\<rparr>"
  let ?e = "example_client\<lparr>early_rc := True\<rparr>"
  have np: "\<not> pause example_client" by (simp add: example_client_def)
  have ne: "\<not> early_rc example_client" by (simp add: example_client_def)
  have np2: "\<not> pause ?e" by (simp add: example_client_def)
  have e2: "early_rc ?e" by simp
  have c: "Coordinator_response ?r = Inr 7" by (simp add: example_responses_def)
  have j: "JoinGroup_response ?r = (None, Some (Transport ''EOF''))" by simp
  have m: "cl_member_id example_client = ''me''" "map fst (consumers example_client) = [''t'']"
    "cl_member_id ?e = ''me''" "map fst (consumers ?e) = [''t'']"
    by (simp_all add: example_client_def)
  note a = transport_error_refreshes
         [OF np, of ?r 7 None "Transport ''EOF''" ?hb None "Transport ''timeout''"]
  note b = transport_error_refreshes
         [OF np2, of ?r 7 None "Transport ''EOF''" ?hb None "Transport ''timeout''"]
  from a b np ne np2 e2 c j m show ?thesis by simp
qed

section \<open>Subscribing a topic twice (claim C9)\<close>

text \<open>
  C9. When the topic is already a key of \<open>consumers\<close>, \<open>Consume\<close> returns no consumer and
  the error "topic is already being consumed" in the context "Consume", and the state of
  \<open>client.run\<close> is as before. This is so in the pause loop and in the heartbeat loop (which
  then rejoins): the map \<open>consumers\<close> is unchanged, so the topic is still registered to
  the first consumer, whose record (with its message and error channels) is the same,
  and the only action is the reply to the caller.
\<close>

theorem consume_twice_fails:
  assumes "map_of (consumers s) t = Some first"
  shows "Consume s t m e n
           = ((None, Some (Error ''Consume'' (Errorf ''topic is already being consumed''))), s)
       \<and> map_of (consumers (snd (Consume s t m e n))) t = Some first
       \<and> client_step Paused s (AddConsumer (Consume_makes t m e) n)
           = Some (Paused, s,
                   [Reply (Consume_makes t m e)
                      (Some (Error ''Consume'' (Errorf ''topic is already being consumed'')))])
       \<and> (\<exists>pl s'. client_step (Steady hb) s (AddConsumer (Consume_makes t m e) n)
                     = Some (pl, s',
                             [Reply (Consume_makes t m e)
                                (Some (Error ''Consume'' (Errorf ''topic is already being consumed'')))])
                   \<and> consumers s' = consumers s)"
proof -
  have a: "add s (Consume_makes t m e) n
             = (s, Some (Error ''Consume'' (Errorf ''topic is already being consumed'')))"
    using assms by (simp add: add_def Consume_makes_def)
  show ?thesis
    using assms by (simp add: a Consume_def add_actions_def continue_join_loop_def)
qed

theorem consume_twice_fails_witness:
  "map_of (consumers example_client) ''t'' = Some (Consume_makes ''t'' 0 1)
   \<and> Consume example_client ''t'' 2 3 None
       = ((None, Some (Error ''Consume'' (Errorf ''topic is already being consumed''))),
          example_client)
   \<and> map_of (consumers (snd (Consume example_client ''t'' 2 3 None))) ''t''
       = Some (Consume_makes ''t'' 0 1)
   \<and> client_step Paused example_client (AddConsumer (Consume_makes ''t'' 2 3) None)
       = Some (Paused, example_client,
               [Reply (Consume_makes ''t'' 2 3)
                  (Some (Error ''Consume'' (Errorf ''topic is already being consumed'')))])"
proof -
  have h: "map_of (consumers example_client) ''t'' = Some (Consume_makes ''t'' 0 1)"
    by (simp add: example_client_def)
  from consume_twice_fails [OF h, where m = 2 and e = 3 and n = None] h show ?thesis by blast
qed

end
